theory Spec2Isabelle
  imports Complex_Main
begin

section \<open>Data model\<close>

text \<open>
  The Go program computes on \<^verbatim>\<open>float64\<close>. The embedding uses \<^typ>\<open>real\<close> for every
  coordinate, angle and distance: it describes the arithmetic the program is written to
  perform, without rounding, infinities or NaN. Consequently \<open>x / 0\<close> and \<open>ln 0\<close> are
  \<open>0\<close> here where Go produces an infinity or NaN; the results below are stated at
  inputs where no such value arises (positive earth radius, latitudes away from the
  poles), and where they rest on a comparison of two numbers, the numbers are equal or
  far apart compared with the rounding of \<^verbatim>\<open>float64\<close>.
\<close>

text \<open>
  Modelled from the spec: the point and rectangle types \<^verbatim>\<open>geo.Point\<close>,
  \<^verbatim>\<open>geo.PointSet\<close> and \<^verbatim>\<open>geo.Bound\<close> of the imported geometry library, which is not
  part of the repository's sources. A point is a pair of degrees, longitude (X) first,
  latitude (Y) second. A Bound is an axis-aligned rectangle given by its south-west and
  north-east corners; extending it by a point grows it monotonically to include the
  point; the bound of a point set is the smallest rectangle containing the points (the
  library returns the zero rectangle for an empty set), and its centre is the midpoint
  of its corners.
\<close>

type_synonym point = "real \<times> real"

definition Lng :: "point \<Rightarrow> real" where
  "Lng p = fst p"

definition Lat :: "point \<Rightarrow> real" where
  "Lat p = snd p"

definition NewPointFromLatLng :: "real \<Rightarrow> real \<Rightarrow> point" where
  "NewPointFromLatLng la lo = (lo, la)"

record bound =
  sw :: point
  ne :: point

definition SouthWest :: "bound \<Rightarrow> point" where
  "SouthWest b = sw b"

definition NorthEast :: "bound \<Rightarrow> point" where
  "NorthEast b = ne b"

definition Extend :: "bound \<Rightarrow> point \<Rightarrow> bound" where
  "Extend b p =
     \<lparr>sw = (min (Lng (sw b)) (Lng p), min (Lat (sw b)) (Lat p)),
      ne = (max (Lng (ne b)) (Lng p), max (Lat (ne b)) (Lat p))\<rparr>"

definition NewBoundFromPoints :: "point \<Rightarrow> point \<Rightarrow> bound" where
  "NewBoundFromPoints corner opposite = Extend \<lparr>sw = corner, ne = corner\<rparr> opposite"

definition PointSet_Bound :: "point list \<Rightarrow> bound" where
  "PointSet_Bound ps =
     (case ps of
        [] \<Rightarrow> \<lparr>sw = (0, 0), ne = (0, 0)\<rparr>
      | p # qs \<Rightarrow> fold (\<lambda>q b. Extend b q) qs \<lparr>sw = p, ne = p\<rparr>)"

definition Center :: "bound \<Rightarrow> point" where
  "Center b = ((Lng (ne b) + Lng (sw b)) / 2, (Lat (ne b) + Lat (sw b)) / 2)"

text \<open>
  The only way the program fails is a Go runtime panic on a slice index out of range;
  it has no error value of its own.
\<close>

datatype error = IndexOutOfRange

definition bindE :: "error + 'a \<Rightarrow> ('a \<Rightarrow> error + 'b) \<Rightarrow> error + 'b" where
  "bindE m f = (case m of Inl e \<Rightarrow> Inl e | Inr v \<Rightarrow> f v)"

definition index :: "'a list \<Rightarrow> int \<Rightarrow> error + 'a" where
  "index xs i = (if 0 \<le> i \<and> i < int (length xs) then Inr (xs ! nat i) else Inl IndexOutOfRange)"

record RouteBoxer =
  distanceRange :: real
  vertices :: "point list"
  latGrid :: "real list"
  lngGrid :: "real list"
  grid :: "int list list"
  boxesX :: "bound list"
  boxesY :: "bound list"

definition NewRouteBoxer :: "real \<Rightarrow> point list \<Rightarrow> RouteBoxer" where
  "NewRouteBoxer dr vs =
     \<lparr>distanceRange = dr, vertices = vs, latGrid = [], lngGrid = [], grid = [],
      boxesX = [], boxesY = []\<rparr>"

section \<open>Geodesy primitives (rhumb.go)\<close>

definition deg2rad :: "real \<Rightarrow> real" where
  "deg2rad d = d * pi / 180"

definition rad2deg :: "real \<Rightarrow> real" where
  "rad2deg r = 180 * r / pi"

text \<open>
  \<^verbatim>\<open>math.Remainder(x, y)\<close> is the IEEE 754 remainder \<open>x - n * y\<close>, where \<open>n\<close> is the
  integer nearest to \<open>x / y\<close>, the even one when two are equally near.
\<close>

definition nearest_even :: "real \<Rightarrow> int" where
  "nearest_even x =
     (let f = \<lfloor>x\<rfloor>; r = x - of_int f
      in if r < 1 / 2 then f else if 1 / 2 < r then f + 1 else if even f then f else f + 1)"

definition Remainder :: "real \<Rightarrow> real \<Rightarrow> real" where
  "Remainder x y = x - of_int (nearest_even (x / y)) * y"

text \<open>\<^verbatim>\<open>math.Atan2(y, x)\<close>: the angle of the point \<open>(x, y)\<close>, in \<open>(-pi, pi]\<close>.\<close>

definition Atan2 :: "real \<Rightarrow> real \<Rightarrow> real" where
  "Atan2 y x =
     (if 0 < x then arctan (y / x)
      else if x < 0 then (if 0 \<le> y then arctan (y / x) + pi else arctan (y / x) - pi)
      else if 0 < y then pi / 2 else if y < 0 then - (pi / 2) else 0)"

text \<open>
  \<^verbatim>\<open>geo.EarthRadius\<close> is a constant of the imported library; it is the first
  parameter \<open>er\<close> of every function that uses it. The concrete evaluations below take
  \<open>er = 6378137\<close>, the radius in metres of the usual spherical model.
\<close>

definition RhumbDestinationPoint :: "real \<Rightarrow> point \<Rightarrow> real \<Rightarrow> real \<Rightarrow> point" where
  "RhumbDestinationPoint er currentPoint brng0 dist' =
     (let d = dist' / er;
          lat1 = deg2rad (Lat currentPoint);
          lon1 = deg2rad (Lng currentPoint);
          brng = deg2rad brng0;
          dLat0 = d * cos brng;
          dLat = (if \<bar>dLat0\<bar> < 1 / 10 ^ 10 then 0 else dLat0);
          lat2a = lat1 + dLat;
          dPhi = ln (tan (lat2a / 2 + pi / 4) / tan (lat1 / 2 + pi / 4));
          q = (if dPhi \<noteq> 0 then dLat / dPhi else cos lat1);
          dLon = d * sin brng / q;
          lat2 = (if \<bar>lat2a\<bar> > pi / 2
                  then (if lat2a > 0 then pi - lat2a else - pi - lat2a)
                  else lat2a);
          lon2 = Remainder (lon1 + dLon + 3 * pi) (2 * pi - pi)
      in NewPointFromLatLng (rad2deg lat2) (rad2deg lon2))"

definition RhumBearingTo :: "point \<Rightarrow> point \<Rightarrow> real" where
  "RhumBearingTo p dest =
     (let dLon0 = deg2rad (Lng dest - Lng p);
          dPhi = ln (tan (deg2rad (Lat dest) / 2 + pi / 4) / tan (deg2rad (Lat p) / 2 + pi / 4));
          dLon = (if \<bar>dLon0\<bar> > pi
                  then (if dLon0 > 0 then - (2 * pi - dLon0) else 2 * pi + dLon0)
                  else dLon0)
      in Remainder (rad2deg (Atan2 dLon dPhi) + 360) 360)"

section \<open>Grid builder\<close>

text \<open>
  The four growth loops of \<^verbatim>\<open>buildGrid\<close> may run forever; each takes a fuel, the
  number of iterations it may perform, and returns \<open>None\<close> when the fuel does not suffice.
  The loop condition is tested before fuel is consumed.
\<close>

fun northLoop :: "nat \<Rightarrow> real \<Rightarrow> point \<Rightarrow> real \<Rightarrow> real \<Rightarrow> nat \<Rightarrow> real list
    \<Rightarrow> (error + real list) option" where
  "northLoop fuel er c dr neLat i g =
     (case index g (int i - 2) of
        Inl e \<Rightarrow> Some (Inl e)
      | Inr v \<Rightarrow>
          if v < neLat
          then (case fuel of
                  0 \<Rightarrow> None
                | Suc fuel' \<Rightarrow>
                    northLoop fuel' er c dr neLat (i + 1)
                      (g @ [Lat (RhumbDestinationPoint er c 0 (dr * of_nat i))]))
          else Some (Inr g))"

fun southLoop :: "nat \<Rightarrow> real \<Rightarrow> point \<Rightarrow> real \<Rightarrow> real \<Rightarrow> nat \<Rightarrow> real list
    \<Rightarrow> (error + real list) option" where
  "southLoop fuel er c dr swLat i g =
     (case index g 1 of
        Inl e \<Rightarrow> Some (Inl e)
      | Inr v \<Rightarrow>
          if v > swLat
          then (case fuel of
                  0 \<Rightarrow> None
                | Suc fuel' \<Rightarrow>
                    southLoop fuel' er c dr swLat (i + 1)
                      (Lat (RhumbDestinationPoint er c 180 (dr * of_nat i)) # g))
          else Some (Inr g))"

fun eastLoop :: "nat \<Rightarrow> real \<Rightarrow> point \<Rightarrow> real \<Rightarrow> real \<Rightarrow> nat \<Rightarrow> real list
    \<Rightarrow> (error + real list) option" where
  "eastLoop fuel er c dr neLng i g =
     (case index g (int i - 2) of
        Inl e \<Rightarrow> Some (Inl e)
      | Inr v \<Rightarrow>
          if v < neLng
          then (case fuel of
                  0 \<Rightarrow> None
                | Suc fuel' \<Rightarrow>
                    eastLoop fuel' er c dr neLng (i + 1)
                      (g @ [Lng (RhumbDestinationPoint er c 90 (dr * of_nat i))]))
          else Some (Inr g))"

fun westLoop :: "nat \<Rightarrow> real \<Rightarrow> point \<Rightarrow> real \<Rightarrow> real \<Rightarrow> nat \<Rightarrow> real list
    \<Rightarrow> (error + real list) option" where
  "westLoop fuel er c dr swLng i g =
     (case index g 1 of
        Inl e \<Rightarrow> Some (Inl e)
      | Inr v \<Rightarrow>
          if v > swLng
          then (case fuel of
                  0 \<Rightarrow> None
                | Suc fuel' \<Rightarrow>
                    westLoop fuel' er c dr swLng (i + 1)
                      (Lng (RhumbDestinationPoint er c 270 (dr * of_nat i)) # g))
          else Some (Inr g))"

definition bindO :: "(error + 'a) option \<Rightarrow> ('a \<Rightarrow> (error + 'b) option) \<Rightarrow> (error + 'b) option" where
  "bindO m f = (case m of None \<Rightarrow> None | Some (Inl e) \<Rightarrow> Some (Inl e) | Some (Inr v) \<Rightarrow> f v)"

definition buildGrid :: "nat \<Rightarrow> real \<Rightarrow> RouteBoxer \<Rightarrow> (error + RouteBoxer) option" where
  "buildGrid fuel er r =
     (let routeBounds = PointSet_Bound (vertices r);
          boundCenter = Center routeBounds;
          dr = distanceRange r;
          lat0 = latGrid r @ [Lat boundCenter];
          lat1 = lat0 @ [Lat (RhumbDestinationPoint er boundCenter 0 dr)]
      in bindO (northLoop fuel er boundCenter dr (Lat (NorthEast routeBounds)) 2 lat1) (\<lambda>lat2.
         bindO (southLoop fuel er boundCenter dr (Lat (SouthWest routeBounds)) 1 lat2) (\<lambda>lat3.
         let lng0 = lngGrid r @ [Lng boundCenter];
             lng1 = lng0 @ [Lng (RhumbDestinationPoint er boundCenter 90 dr)]
         in bindO (eastLoop fuel er boundCenter dr (Lng (NorthEast routeBounds)) 2 lng1) (\<lambda>lng2.
            bindO (westLoop fuel er boundCenter dr (Lng (SouthWest routeBounds)) 1 lng2) (\<lambda>lng3.
            Some (Inr (r\<lparr>latGrid := lat3, lngGrid := lng3,
                        grid := replicate (length lng3) (replicate (length lat3) 0)\<rparr>)))))))"


section \<open>Cell locator\<close>

text \<open>
  Cell coordinates are Go \<^verbatim>\<open>int\<close>s and can become negative, so they are \<^typ>\<open>int\<close>
  here; every slice access is checked. The three scanning loops of the locator end at the
  latest when the index leaves the slice, with a panic.
\<close>

type_synonym cell = "int \<times> int"

function scanFrom0 :: "real list \<Rightarrow> real \<Rightarrow> int \<Rightarrow> error + int" where
  "scanFrom0 g v x =
     (if 0 \<le> x \<and> x < int (length g)
      then (if g ! nat x < v then scanFrom0 g v (x + 1) else Inr x)
      else Inl IndexOutOfRange)"
  by pat_completeness auto
termination
  by (relation "measure (\<lambda>(g, v, x). nat (int (length g) - x))") auto

function scanForward :: "real list \<Rightarrow> real \<Rightarrow> int \<Rightarrow> error + int" where
  "scanForward g v x =
     (if 0 \<le> x + 1 \<and> x + 1 < int (length g)
      then (if g ! nat (x + 1) < v then scanForward g v (x + 1) else Inr x)
      else Inl IndexOutOfRange)"
  by pat_completeness auto
termination
  by (relation "measure (\<lambda>(g, v, x). nat (int (length g) - x))") auto

function scanBackward :: "real list \<Rightarrow> real \<Rightarrow> int \<Rightarrow> error + int" where
  "scanBackward g v x =
     (if 0 \<le> x \<and> x < int (length g)
      then (if g ! nat x > v then scanBackward g v (x - 1) else Inr x)
      else Inl IndexOutOfRange)"
  by pat_completeness auto
termination
  by (relation "measure (\<lambda>(g, v, x). nat (x + 1))") auto

definition getGridCoordsFromHint ::
    "real list \<Rightarrow> real list \<Rightarrow> point \<Rightarrow> point \<Rightarrow> cell \<Rightarrow> error + cell" where
  "getGridCoordsFromHint latG lngG latlng hintlatlng hint =
     bindE (if Lng latlng > Lng hintlatlng
            then scanForward lngG (Lng latlng) (fst hint)
            else scanBackward lngG (Lng latlng) (fst hint)) (\<lambda>x.
     bindE (if Lat latlng > Lat hintlatlng
            then scanForward latG (Lat latlng) (snd hint)
            else scanBackward latG (Lat latlng) (snd hint)) (\<lambda>y.
     Inr (x, y)))"

definition getCellCoords :: "real list \<Rightarrow> real list \<Rightarrow> point \<Rightarrow> error + cell" where
  "getCellCoords latG lngG latlng =
     bindE (scanFrom0 lngG (Lng latlng) 0) (\<lambda>x.
     bindE (scanFrom0 latG (Lat latlng) 0) (\<lambda>y.
     Inr (x - 1, y - 1)))"

section \<open>Cell marker\<close>

definition setCell :: "int list list \<Rightarrow> int \<Rightarrow> int \<Rightarrow> error + int list list" where
  "setCell g x y =
     bindE (index g x) (\<lambda>col.
     if 0 \<le> y \<and> y < int (length col)
     then Inr (g[nat x := col[nat y := 1]])
     else Inl IndexOutOfRange)"

definition markCell :: "int list list \<Rightarrow> cell \<Rightarrow> error + int list list" where
  "markCell g cell =
     (let x = fst cell; y = snd cell
      in bindE (setCell g (x - 1) (y - 1)) (\<lambda>g.
         bindE (setCell g x (y - 1)) (\<lambda>g.
         bindE (setCell g (x + 1) (y - 1)) (\<lambda>g.
         bindE (setCell g (x - 1) y) (\<lambda>g.
         bindE (setCell g x y) (\<lambda>g.
         bindE (setCell g (x + 1) y) (\<lambda>g.
         bindE (setCell g (x - 1) (y + 1)) (\<lambda>g.
         bindE (setCell g x (y + 1)) (\<lambda>g.
         setCell g (x + 1) (y + 1))))))))))"

section \<open>Intersection tracer\<close>

function fillUp :: "int list list \<Rightarrow> int \<Rightarrow> int \<Rightarrow> int \<Rightarrow> error + int list list" where
  "fillUp g x endx y =
     (if x \<le> endx then bindE (markCell g (x, y)) (\<lambda>g'. fillUp g' (x + 1) endx y) else Inr g)"
  by pat_completeness auto
termination
  by (relation "measure (\<lambda>(g, x, endx, y). nat (endx + 1 - x))") auto

function fillDown :: "int list list \<Rightarrow> int \<Rightarrow> int \<Rightarrow> int \<Rightarrow> error + int list list" where
  "fillDown g x endx y =
     (if x \<ge> endx then bindE (markCell g (x, y)) (\<lambda>g'. fillDown g' (x - 1) endx y) else Inr g)"
  by pat_completeness auto
termination
  by (relation "measure (\<lambda>(g, x, endx, y). nat (x + 1 - endx))") auto

definition fillInGridSquares :: "int list list \<Rightarrow> int \<Rightarrow> int \<Rightarrow> int \<Rightarrow> error + int list list" where
  "fillInGridSquares g startx endx y =
     (if startx < endx then fillUp g startx endx y else fillDown g startx endx y)"

definition getGridIntersectDistance :: "real \<Rightarrow> point \<Rightarrow> real \<Rightarrow> real \<Rightarrow> real" where
  "getGridIntersectDistance er start brng gridLineLat =
     (er / 1000) * ((deg2rad gridLineLat - deg2rad (Lat start)) / cos (deg2rad brng))"

definition getGridIntersect :: "real \<Rightarrow> point \<Rightarrow> real \<Rightarrow> real \<Rightarrow> point" where
  "getGridIntersect er start brng gridLineLat =
     (let d = getGridIntersectDistance er start brng gridLineLat
      in RhumbDestinationPoint er start brng d)"

text \<open>
  The two loops of \<^verbatim>\<open>getGridIntersects\<close> over the latitude lines between the start
  and the end cell; the loop state is the row \<open>i\<close>, the previous crossing and its cell,
  and the coverage grid. Each returns the final \<open>i\<close> and cell with the grid.
\<close>

function intersectsNorth ::
    "real \<Rightarrow> real list \<Rightarrow> real list \<Rightarrow> point \<Rightarrow> real \<Rightarrow> int \<Rightarrow> int \<Rightarrow> point \<Rightarrow> cell
     \<Rightarrow> int list list \<Rightarrow> error + (int \<times> cell \<times> int list list)" where
  "intersectsNorth er latG lngG start brng endY i hint hintXY g =
     (if i \<le> endY
      then bindE (index latG i) (\<lambda>gridLineLat.
           let edgePoint = getGridIntersect er start brng gridLineLat
           in bindE (getGridCoordsFromHint latG lngG edgePoint hint hintXY) (\<lambda>edgeXY.
              bindE (fillInGridSquares g (fst hintXY) (fst edgeXY) (i - 1)) (\<lambda>g'.
              intersectsNorth er latG lngG start brng endY (i + 1) edgePoint edgeXY g')))
      else Inr (i, hintXY, g))"
  by pat_completeness auto
termination
  by (relation "measure (\<lambda>(er, latG, lngG, start, brng, endY, i, hint, hintXY, g). nat (endY + 1 - i))")
    auto

function intersectsSouth ::
    "real \<Rightarrow> real list \<Rightarrow> real list \<Rightarrow> point \<Rightarrow> real \<Rightarrow> int \<Rightarrow> int \<Rightarrow> point \<Rightarrow> cell
     \<Rightarrow> int list list \<Rightarrow> error + (int \<times> cell \<times> int list list)" where
  "intersectsSouth er latG lngG start brng endY i hint hintXY g =
     (if i > endY
      then bindE (index latG i) (\<lambda>gridLineLat.
           let edgePoint = getGridIntersect er start brng gridLineLat
           in bindE (getGridCoordsFromHint latG lngG edgePoint hint hintXY) (\<lambda>edgeXY.
              bindE (fillInGridSquares g (fst hintXY) (fst edgeXY) i) (\<lambda>g'.
              intersectsSouth er latG lngG start brng endY (i - 1) edgePoint edgeXY g')))
      else Inr (i, hintXY, g))"
  by pat_completeness auto
termination
  by (relation "measure (\<lambda>(er, latG, lngG, start, brng, endY, i, hint, hintXY, g). nat (i - endY))")
    auto

definition getGridIntersects ::
    "real \<Rightarrow> real list \<Rightarrow> real list \<Rightarrow> int list list \<Rightarrow> point \<Rightarrow> point \<Rightarrow> cell \<Rightarrow> cell
     \<Rightarrow> error + int list list" where
  "getGridIntersects er latG lngG g start end' startXY endXY =
     (let brng = RhumBearingTo start end'
      in if Lat end' > Lat start
         then bindE (intersectsNorth er latG lngG start brng (snd endXY) (snd startXY + 1)
                       start startXY g) (\<lambda>(i, hintXY, g').
              fillInGridSquares g' (fst hintXY) (fst endXY) (i - 1))
         else bindE (intersectsSouth er latG lngG start brng (snd endXY) (snd startXY)
                       start startXY g) (\<lambda>(i, hintXY, g').
              fillInGridSquares g' (fst hintXY) (fst endXY) i))"

text \<open>
  The vertex loop of \<^verbatim>\<open>FindIntersectingCells\<close>: \<open>prev\<close> is \<^verbatim>\<open>vertices[i-1]\<close> and the
  list holds \<^verbatim>\<open>vertices[i..]\<close>.
\<close>

fun findLoop ::
    "real \<Rightarrow> real list \<Rightarrow> real list \<Rightarrow> point \<Rightarrow> point list \<Rightarrow> cell \<Rightarrow> int list list
     \<Rightarrow> error + int list list" where
  "findLoop er latG lngG prev [] hintXY g = Inr g"
| "findLoop er latG lngG prev (v # vs) hintXY g =
     bindE (getGridCoordsFromHint latG lngG v prev hintXY) (\<lambda>gridXY.
     if fst gridXY = fst hintXY \<and> snd gridXY = snd hintXY
     then findLoop er latG lngG v vs hintXY g
     else if (fst hintXY - fst gridXY = 1 \<and> snd hintXY = snd gridXY) \<or>
             (fst hintXY = fst gridXY \<and> snd hintXY - snd gridXY = 1)
     then bindE (markCell g gridXY) (\<lambda>g'. findLoop er latG lngG v vs gridXY g')
     else bindE (getGridIntersects er latG lngG g prev v hintXY gridXY) (\<lambda>g'.
          findLoop er latG lngG v vs gridXY g'))"

definition FindIntersectingCells :: "real \<Rightarrow> RouteBoxer \<Rightarrow> error + RouteBoxer" where
  "FindIntersectingCells er r =
     bindE (index (vertices r) 0) (\<lambda>v0.
     bindE (getCellCoords (latGrid r) (lngGrid r) v0) (\<lambda>hintXY.
     bindE (markCell (grid r) hintXY) (\<lambda>g.
     bindE (findLoop er (latGrid r) (lngGrid r) v0 (tl (vertices r)) hintXY g) (\<lambda>g'.
     Inr (r\<lparr>grid := g'\<rparr>)))))"


section \<open>Box merger\<close>

definition getCellBounds :: "real list \<Rightarrow> real list \<Rightarrow> cell \<Rightarrow> error + bound" where
  "getCellBounds latG lngG cell =
     bindE (index latG (snd cell)) (\<lambda>la0.
     bindE (index lngG (fst cell)) (\<lambda>lo0.
     bindE (index latG (snd cell + 1)) (\<lambda>la1.
     bindE (index lngG (fst cell + 1)) (\<lambda>lo1.
     Inr (NewBoundFromPoints (NewPointFromLatLng la0 lo0) (NewPointFromLatLng la1 lo1))))))"

definition matchX :: "bound \<Rightarrow> bound \<Rightarrow> bool" where
  "matchX b box \<longleftrightarrow>
     \<bar>Lng (NorthEast b) - Lng (SouthWest box)\<bar> < 1 / 1000 \<and>
     \<bar>Lat (SouthWest b) - Lat (SouthWest box)\<bar> < 1 / 1000 \<and>
     \<bar>Lat (NorthEast b) - Lat (NorthEast box)\<bar> < 1 / 1000"

definition matchY :: "bound \<Rightarrow> bound \<Rightarrow> bool" where
  "matchY b box \<longleftrightarrow>
     \<bar>Lat (NorthEast b) - Lat (SouthWest box)\<bar> < 1 / 1000 \<and>
     \<bar>Lng (SouthWest b) - Lng (SouthWest box)\<bar> < 1 / 1000 \<and>
     \<bar>Lng (NorthEast b) - Lng (NorthEast box)\<bar> < 1 / 1000"

text \<open>
  The search loop of \<^verbatim>\<open>mergeBoxesX\<close> and \<^verbatim>\<open>mergeBoxesY\<close>: the first matching box
  of the accumulator is extended in place; when none matches, the box is appended.
\<close>

fun mergeIntoX :: "bound \<Rightarrow> bound list \<Rightarrow> bound list" where
  "mergeIntoX box [] = [box]"
| "mergeIntoX box (b # bs) =
     (if matchX b box then Extend b (NorthEast box) # bs else b # mergeIntoX box bs)"

fun mergeIntoY :: "bound \<Rightarrow> bound list \<Rightarrow> bound list" where
  "mergeIntoY box [] = [box]"
| "mergeIntoY box (b # bs) =
     (if matchY b box then Extend b (NorthEast box) # bs else b # mergeIntoY box bs)"

definition mergeBoxesX :: "bound option \<Rightarrow> bound list \<Rightarrow> bound list" where
  "mergeBoxesX box bs = (case box of None \<Rightarrow> bs | Some b \<Rightarrow> mergeIntoX b bs)"

definition mergeBoxesY :: "bound option \<Rightarrow> bound list \<Rightarrow> bound list" where
  "mergeBoxesY box bs = (case box of None \<Rightarrow> bs | Some b \<Rightarrow> mergeIntoY b bs)"

definition growBox :: "bound option \<Rightarrow> bound \<Rightarrow> bound option" where
  "growBox currentBox box =
     (case currentBox of None \<Rightarrow> Some box | Some cb \<Rightarrow> Some (Extend cb (NorthEast box)))"

definition gridAt :: "int list list \<Rightarrow> nat \<Rightarrow> nat \<Rightarrow> error + int" where
  "gridAt g x y = bindE (index g (int x)) (\<lambda>col. index col (int y))"

text \<open>The traversal a row at a time: the inner loop over \<open>x\<close>, the outer loop over \<open>y\<close>.\<close>

function rowCells ::
    "real list \<Rightarrow> real list \<Rightarrow> int list list \<Rightarrow> nat \<Rightarrow> nat \<Rightarrow> bound option \<Rightarrow> bound list
     \<Rightarrow> error + (bound option \<times> bound list)" where
  "rowCells latG lngG g y x currentBox bs =
     (if x < length g
      then bindE (gridAt g x y) (\<lambda>c.
           if c = 1
           then bindE (getCellBounds latG lngG (int x, int y)) (\<lambda>box.
                rowCells latG lngG g y (x + 1) (growBox currentBox box) bs)
           else rowCells latG lngG g y (x + 1) None (mergeBoxesY currentBox bs))
      else Inr (currentBox, bs))"
  by pat_completeness auto
termination
  by (relation "measure (\<lambda>(latG, lngG, g, y, x, currentBox, bs). length g - x)") auto

function rowScan ::
    "real list \<Rightarrow> real list \<Rightarrow> int list list \<Rightarrow> nat \<Rightarrow> bound list \<Rightarrow> error + bound list" where
  "rowScan latG lngG g y bs =
     (case index g 0 of
        Inl e \<Rightarrow> Inl e
      | Inr col0 \<Rightarrow>
          if y < length col0
          then bindE (rowCells latG lngG g y 0 None bs) (\<lambda>(currentBox, bs').
               rowScan latG lngG g (y + 1) (mergeBoxesY currentBox bs'))
          else Inr bs)"
  by pat_completeness auto
termination
  by (relation "measure (\<lambda>(latG, lngG, g, y, bs). length (g ! 0) - y)")
    (auto simp: index_def split: if_splits)

text \<open>The traversal a column at a time: the inner loop over \<open>y\<close>, the outer loop over \<open>x\<close>.\<close>

function colCells ::
    "real list \<Rightarrow> real list \<Rightarrow> int list list \<Rightarrow> nat \<Rightarrow> nat \<Rightarrow> bound option \<Rightarrow> bound list
     \<Rightarrow> error + (bound option \<times> bound list)" where
  "colCells latG lngG g x y currentBox bs =
     (case index g 0 of
        Inl e \<Rightarrow> Inl e
      | Inr col0 \<Rightarrow>
          if y < length col0
          then bindE (gridAt g x y) (\<lambda>c.
               if c = 1
               then bindE (getCellBounds latG lngG (int x, int y)) (\<lambda>box.
                    colCells latG lngG g x (y + 1) (growBox currentBox box) bs)
               else colCells latG lngG g x (y + 1) None (mergeBoxesX currentBox bs))
          else Inr (currentBox, bs))"
  by pat_completeness auto
termination
  by (relation "measure (\<lambda>(latG, lngG, g, x, y, currentBox, bs). length (g ! 0) - y)")
    (auto simp: index_def split: if_splits)

function colScan ::
    "real list \<Rightarrow> real list \<Rightarrow> int list list \<Rightarrow> nat \<Rightarrow> bound list \<Rightarrow> error + bound list" where
  "colScan latG lngG g x bs =
     (if x < length g
      then bindE (colCells latG lngG g x 0 None bs) (\<lambda>(currentBox, bs').
           colScan latG lngG g (x + 1) (mergeBoxesX currentBox bs'))
      else Inr bs)"
  by pat_completeness auto
termination
  by (relation "measure (\<lambda>(latG, lngG, g, x, bs). length g - x)") auto

definition mergeIntersectingCells :: "RouteBoxer \<Rightarrow> error + RouteBoxer" where
  "mergeIntersectingCells r =
     bindE (rowScan (latGrid r) (lngGrid r) (grid r) 0 (boxesY r)) (\<lambda>bsY.
     bindE (colScan (latGrid r) (lngGrid r) (grid r) 0 (boxesX r)) (\<lambda>bsX.
     Inr (r\<lparr>boxesX := bsX, boxesY := bsY\<rparr>)))"

section \<open>Boxes\<close>

text \<open>
  \<^verbatim>\<open>Boxes\<close> returns the chosen accumulator; the receiver it leaves behind is returned
  with it.
\<close>

definition Boxes :: "nat \<Rightarrow> real \<Rightarrow> RouteBoxer \<Rightarrow> (error + (bound list \<times> RouteBoxer)) option" where
  "Boxes fuel er r =
     bindO (buildGrid fuel er r) (\<lambda>r1.
     Some (bindE (FindIntersectingCells er r1) (\<lambda>r2.
           bindE (mergeIntersectingCells r2) (\<lambda>r3.
           Inr (if length (boxesX r3) \<le> length (boxesY r3) then boxesX r3 else boxesY r3, r3)))))"


section \<open>Properties of grids and rectangle sets\<close>

text \<open>
  Grid lines are \<open>spaced\<close> when they increase by at least the merge tolerance of
  \<open>0.001\<close> degrees from one line to the next.
\<close>

definition spaced :: "real list \<Rightarrow> bool" where
  "spaced G \<longleftrightarrow> sorted_wrt (\<lambda>a b. a + 1 / 1000 \<le> b) G"

text \<open>
  A rectangle covers the cell \<open>(x, y)\<close> when it contains the cell's rectangle, which lies
  between the grid lines \<open>x\<close> and \<open>x + 1\<close>, \<open>y\<close> and \<open>y + 1\<close>. Two rectangles overlap when
  their interiors meet.
\<close>

definition coversCell :: "real list \<Rightarrow> real list \<Rightarrow> bound \<Rightarrow> nat \<Rightarrow> nat \<Rightarrow> bool" where
  "coversCell latG lngG b x y \<longleftrightarrow>
     Lng (SouthWest b) \<le> lngG ! x \<and> lngG ! (x + 1) \<le> Lng (NorthEast b) \<and>
     Lat (SouthWest b) \<le> latG ! y \<and> latG ! (y + 1) \<le> Lat (NorthEast b)"

definition overlap :: "bound \<Rightarrow> bound \<Rightarrow> bool" where
  "overlap b c \<longleftrightarrow>
     max (Lng (SouthWest b)) (Lng (SouthWest c)) < min (Lng (NorthEast b)) (Lng (NorthEast c)) \<and>
     max (Lat (SouthWest b)) (Lat (SouthWest c)) < min (Lat (NorthEast b)) (Lat (NorthEast c))"

text \<open>
  The points of a rectangle are those between its south-west and north-east corners, the
  edges included. The rectangle of the cell \<open>(x, y)\<close> has its corners on the grid lines
  \<open>x\<close> and \<open>x + 1\<close>, \<open>y\<close> and \<open>y + 1\<close>. The marked cells of a grid are the cells between
  its lines whose entry in the coverage grid is \<open>1\<close>.
\<close>

definition rectPoints :: "bound \<Rightarrow> point set" where
  "rectPoints b = {p. Lng (SouthWest b) \<le> Lng p \<and> Lng p \<le> Lng (NorthEast b) \<and>
                      Lat (SouthWest b) \<le> Lat p \<and> Lat p \<le> Lat (NorthEast b)}"

definition cellBound :: "real list \<Rightarrow> real list \<Rightarrow> nat \<Rightarrow> nat \<Rightarrow> bound" where
  "cellBound latG lngG x y = \<lparr>sw = (lngG ! x, latG ! y), ne = (lngG ! (x + 1), latG ! (y + 1))\<rparr>"

definition markedInGrid :: "real list \<Rightarrow> real list \<Rightarrow> int list list \<Rightarrow> (nat \<times> nat) set" where
  "markedInGrid latG lngG g = {(x, y). x < length lngG - 1 \<and> y < length latG - 1 \<and> g ! x ! y = 1}"

text \<open>
  A rectangle list tiles the marked cells exactly when the union of its rectangles is the
  union of the rectangles of the marked cells, as sets of points; every marked cell is
  covered by exactly one rectangle of the list and no unmarked cell is covered by any;
  and no two rectangles of the list overlap.
\<close>

definition exactTiling :: "real list \<Rightarrow> real list \<Rightarrow> int list list \<Rightarrow> bound list \<Rightarrow> bool" where
  "exactTiling latG lngG g bs \<longleftrightarrow>
     (\<Union>b \<in> set bs. rectPoints b)
       = (\<Union>(x, y) \<in> markedInGrid latG lngG g. rectPoints (cellBound latG lngG x y)) \<and>
     (\<forall>x < length lngG - 1. \<forall>y < length latG - 1.
        length (filter (\<lambda>b. coversCell latG lngG b x y) bs) = (if g ! x ! y = 1 then 1 else 0)) \<and>
     (\<forall>i < length bs. \<forall>j < i. \<not> overlap (bs ! i) (bs ! j))"



section \<open>Index rectangles and the invariants of the two traversals\<close>

text \<open>
  A rectangle of cells is given by the indices of the grid lines that bound it:
  \<open>(x0, x1, y0, y1)\<close> holds the cells \<open>(x, y)\<close> with \<open>x0 \<le> x < x1\<close> and \<open>y0 \<le> y < y1\<close>.
  A list of such rectangles tiles a set of cells when the rectangles lie on the grid, are
  pairwise disjoint and their union is the set.
\<close>

type_synonym irect = "nat \<times> nat \<times> nat \<times> nat"

definition cellsOf :: "irect \<Rightarrow> (nat \<times> nat) set" where
  "cellsOf r = (case r of (x0, x1, y0, y1) \<Rightarrow> {(x, y). x0 \<le> x \<and> x < x1 \<and> y0 \<le> y \<and> y < y1})"

definition validRect :: "real list \<Rightarrow> real list \<Rightarrow> irect \<Rightarrow> bool" where
  "validRect latG lngG r =
     (case r of (x0, x1, y0, y1) \<Rightarrow> x0 < x1 \<and> x1 < length lngG \<and> y0 < y1 \<and> y1 < length latG)"

definition boundOf :: "real list \<Rightarrow> real list \<Rightarrow> irect \<Rightarrow> bound" where
  "boundOf latG lngG r =
     (case r of (x0, x1, y0, y1) \<Rightarrow> \<lparr>sw = (lngG ! x0, latG ! y0), ne = (lngG ! x1, latG ! y1)\<rparr>)"

definition tiledBy :: "real list \<Rightarrow> real list \<Rightarrow> irect list \<Rightarrow> (nat \<times> nat) set \<Rightarrow> bool" where
  "tiledBy latG lngG rs S \<longleftrightarrow>
     (\<forall>r \<in> set rs. validRect latG lngG r) \<and>
     sorted_wrt (\<lambda>r r'. cellsOf r \<inter> cellsOf r' = {}) rs \<and>
     (\<Union>r \<in> set rs. cellsOf r) = S"

definition markedCells :: "int list list \<Rightarrow> (nat \<times> nat) set" where
  "markedCells g = {(x, y). x < length g \<and> y < length (g ! x) \<and> g ! x ! y = 1}"

text \<open>
  The invariant of the row traversal at row \<open>y\<close>, column \<open>x\<close>: the accumulator tiles the
  marked cells before the start \<open>a\<close> of the current run, the cells from \<open>a\<close> to \<open>x\<close> of the
  row are marked, and the current box is the rectangle of that run. The invariant of the
  column traversal is its mirror image.
\<close>

definition rowDone :: "int list list \<Rightarrow> nat \<Rightarrow> nat \<Rightarrow> (nat \<times> nat) set" where
  "rowDone g y x = {(x', y'). (x', y') \<in> markedCells g \<and> (y' < y \<or> (y' = y \<and> x' < x))}"

definition rowInv ::
    "real list \<Rightarrow> real list \<Rightarrow> int list list \<Rightarrow> nat \<Rightarrow> nat \<Rightarrow> bound option \<Rightarrow> bound list \<Rightarrow> bool" where
  "rowInv latG lngG g y x cur bs \<longleftrightarrow>
     (\<exists>rs a. bs = map (boundOf latG lngG) rs \<and> tiledBy latG lngG rs (rowDone g y a) \<and> a \<le> x \<and>
        (\<forall>x'. a \<le> x' \<and> x' < x \<longrightarrow> (x', y) \<in> markedCells g) \<and>
        (if a = x then cur = None
         else cur = Some (boundOf latG lngG (a, x, y, y + 1)) \<and> validRect latG lngG (a, x, y, y + 1)))"

definition colDone :: "int list list \<Rightarrow> nat \<Rightarrow> nat \<Rightarrow> (nat \<times> nat) set" where
  "colDone g x y = {(x', y'). (x', y') \<in> markedCells g \<and> (x' < x \<or> (x' = x \<and> y' < y))}"

definition colInv ::
    "real list \<Rightarrow> real list \<Rightarrow> int list list \<Rightarrow> nat \<Rightarrow> nat \<Rightarrow> bound option \<Rightarrow> bound list \<Rightarrow> bool" where
  "colInv latG lngG g x y cur bs \<longleftrightarrow>
     (\<exists>rs b. bs = map (boundOf latG lngG) rs \<and> tiledBy latG lngG rs (colDone g x b) \<and> b \<le> y \<and>
        (\<forall>y'. b \<le> y' \<and> y' < y \<longrightarrow> (x, y') \<in> markedCells g) \<and>
        (if b = y then cur = None
         else cur = Some (boundOf latG lngG (x, x + 1, b, y)) \<and> validRect latG lngG (x, x + 1, b, y)))"

section \<open>A worked example: an L-shaped route around the origin\<close>

text \<open>
  The route \<open>routeL a\<close> runs from \<open>(a, a)\<close> west to \<open>(- a, a)\<close> and south to
  \<open>(- a, - a)\<close>. When \<open>a\<close> is smaller than the cell size \<open>dl\<close>, the grid has the five
  lines \<open>linesL dl\<close> on each axis, and the marked cells are \<open>markedL\<close> (column by column):
  the 4 by 4 square of cells without the cell \<open>(3, 0)\<close>. \<open>colFirstL\<close> and \<open>rowFirstL\<close> are
  the rectangles the two traversals produce from it when matching is exact; the values
  with the suffix \<open>2L\<close> describe the state after a second call on the same receiver.
\<close>

definition routeL :: "real \<Rightarrow> point list" where
  "routeL a = [(a, a), (- a, a), (- a, - a)]"

definition linesL :: "real \<Rightarrow> real list" where
  "linesL dl = [- (2 * dl), - dl, 0, dl, 2 * dl]"

definition zeroL :: "int list list" where
  "zeroL = [[0, 0, 0, 0, 0], [0, 0, 0, 0, 0], [0, 0, 0, 0, 0], [0, 0, 0, 0, 0], [0, 0, 0, 0, 0]]"

definition markedL :: "int list list" where
  "markedL = [[1, 1, 1, 1, 0], [1, 1, 1, 1, 0], [1, 1, 1, 1, 0], [0, 1, 1, 1, 0], [0, 0, 0, 0, 0]]"

definition colFirstL :: "real \<Rightarrow> bound list" where
  "colFirstL dl = [\<lparr>sw = (- (2 * dl), - (2 * dl)), ne = (dl, 2 * dl)\<rparr>,
                  \<lparr>sw = (dl, - dl), ne = (2 * dl, 2 * dl)\<rparr>]"

definition rowFirstL :: "real \<Rightarrow> bound list" where
  "rowFirstL dl = [\<lparr>sw = (- (2 * dl), - (2 * dl)), ne = (dl, - dl)\<rparr>,
                  \<lparr>sw = (- (2 * dl), - dl), ne = (2 * dl, 2 * dl)\<rparr>]"




section \<open>Evaluation set-up\<close>

declare northLoop.simps [simp del] southLoop.simps [simp del]
  eastLoop.simps [simp del] westLoop.simps [simp del]

declare scanFrom0.simps [simp del] scanForward.simps [simp del] scanBackward.simps [simp del]

declare fillUp.simps [simp del] fillDown.simps [simp del]
  intersectsNorth.simps [simp del] intersectsSouth.simps [simp del]
  rowCells.simps [simp del] rowScan.simps [simp del]
  colCells.simps [simp del] colScan.simps [simp del]

section \<open>Geodesy: remainder and destination point\<close>

lemma nearest_even_shift:
  assumes "\<bar>t\<bar> < 1 / 2"
  shows "nearest_even (of_int n + t) = n"
proof (cases "0 \<le> t")
  case True
  then have f: "\<lfloor>of_int n + t\<rfloor> = n"
    using assms by (simp add: floor_eq_iff)
  show ?thesis
    using assms True by (simp add: nearest_even_def f Let_def)
next
  case False
  then have f: "\<lfloor>of_int n + t\<rfloor> = n - 1"
    using assms by (simp add: floor_eq_iff)
  show ?thesis
    using assms False by (simp add: nearest_even_def f Let_def)
qed

lemma Remainder_3pi:
  assumes "\<bar>x\<bar> < pi / 2"
  shows "Remainder (x + 3 * pi) (2 * pi - pi) = x"
proof -
  have "(x + 3 * pi) / pi = of_int 3 + x / pi"
    by (simp add: field_simps)
  moreover have "\<bar>x / pi\<bar> < 1 / 2"
    using assms by (simp add: field_simps abs_if split: if_splits)
  ultimately have "nearest_even ((x + 3 * pi) / pi) = 3"
    using nearest_even_shift[of "x / pi" 3] by simp
  then show ?thesis
    by (simp add: Remainder_def)
qed

text \<open>
  Claim C5 (the longitude returned by \<^verbatim>\<open>RhumbDestinationPoint\<close> is normalised into
  \<open>(-180, 180]\<close>): the code takes the remainder modulo \<open>2 * pi - pi = pi\<close>, half a turn.
  Travelling distance \<open>0\<close> from longitude \<open>100\<close> on the equator, it returns longitude
  \<open>-80\<close>, which is not the meridian \<open>100\<close> (they differ by 180 degrees, not by a
  multiple of 360).
\<close>

theorem RhumbDestinationPoint_longitude_half_turn:
  "Lng (RhumbDestinationPoint er (100, 0) 0 0) = - 80"
proof -
  have "(5 * pi / 9 + 3 * pi) / pi = of_int 4 + (- (4 / 9))"
    by (simp add: field_simps)
  then have "nearest_even ((5 * pi / 9 + 3 * pi) / pi) = 4"
    using nearest_even_shift[of "- (4 / 9)" 4] by simp
  then have "Remainder (5 * pi / 9 + 3 * pi) pi = - (4 * pi / 9)"
    by (simp add: Remainder_def field_simps)
  then show ?thesis
    by (simp add: RhumbDestinationPoint_def Let_def deg2rad_def rad2deg_def Lng_def Lat_def
        NewPointFromLatLng_def tan_45)
qed

text \<open>
  Claim C6 (the distance \<^verbatim>\<open>getGridIntersect\<close> passes to \<^verbatim>\<open>RhumbDestinationPoint\<close> is
  \<open>earthRadius * (targetLatRad - startLatRad) / cos bearingRad\<close> in the unit in which
  \<^verbatim>\<open>RhumbDestinationPoint\<close> divides by the earth radius, so the crossing lies on the
  target latitude): the code multiplies by \<open>earthRadius / 1000\<close>, while
  \<^verbatim>\<open>RhumbDestinationPoint\<close> divides by \<open>earthRadius\<close>. From the origin, due north, to
  the latitude line \<open>1\<close>, the distance passed is a thousandth of the claimed one and the
  computed crossing has latitude \<open>1 / 1000\<close>.
\<close>

theorem getGridIntersect_off_target_latitude:
  "getGridIntersectDistance 6378137 (0, 0) 0 1 =
     6378137 * ((deg2rad 1 - deg2rad (Lat (0, 0))) / cos (deg2rad 0)) / 1000
   \<and> getGridIntersectDistance 6378137 (0, 0) 0 1 \<noteq>
     6378137 * ((deg2rad 1 - deg2rad (Lat (0, 0))) / cos (deg2rad 0))
   \<and> Lat (getGridIntersect 6378137 (0, 0) 0 1) = 1 / 1000"
proof (intro conjI)
  have d: "getGridIntersectDistance 6378137 (0, 0) 0 1 = 6378137 * pi / 180000"
    by (simp add: getGridIntersectDistance_def deg2rad_def Lat_def)
  have big: "\<not> \<bar>pi / 180000\<bar> < 1 / 10 ^ 10"
    using pi_ge_two by (simp add: abs_if)
  have small: "\<not> \<bar>pi / 180000\<bar> > pi / 2"
    using pi_gt_zero by (simp add: abs_if)
  show "Lat (getGridIntersect 6378137 (0, 0) 0 1) = 1 / 1000"
    using big small
    by (simp add: getGridIntersect_def d RhumbDestinationPoint_def Let_def deg2rad_def
        rad2deg_def Lat_def Lng_def NewPointFromLatLng_def)
  show "getGridIntersectDistance 6378137 (0, 0) 0 1 =
     6378137 * ((deg2rad 1 - deg2rad (Lat (0, 0))) / cos (deg2rad 0)) / 1000"
    by (simp add: getGridIntersectDistance_def deg2rad_def Lat_def)
  show "getGridIntersectDistance 6378137 (0, 0) 0 1 \<noteq>
     6378137 * ((deg2rad 1 - deg2rad (Lat (0, 0))) / cos (deg2rad 0))"
    by (simp add: getGridIntersectDistance_def deg2rad_def Lat_def)
qed


subsection \<open>The destination point along the four grid bearings\<close>

lemma RDP_lat_core:
  assumes "D / er = d" "cos (deg2rad b) = c" "1 / 10 ^ 10 \<le> \<bar>d * c\<bar>"
    "\<bar>deg2rad la + d * c\<bar> \<le> pi / 2"
  shows "Lat (RhumbDestinationPoint er (lo, la) b D) = rad2deg (deg2rad la + d * c)"
proof -
  have 1: "\<not> \<bar>d * c\<bar> < 1 / 10 ^ 10"
    using assms(3) by simp
  have 2: "\<not> \<bar>deg2rad la + d * c\<bar> > pi / 2"
    using assms(4) by simp
  show ?thesis
    by (simp only: RhumbDestinationPoint_def Let_def Lat_def Lng_def NewPointFromLatLng_def
        fst_conv snd_conv assms(1,2) 1 2 if_False)
qed

lemma tan_half_pos:
  assumes "\<bar>la\<bar> < 90"
  shows "0 < tan (deg2rad la / 2 + pi / 4)"
proof (rule tan_gt_zero)
  have "- 90 < la" "la < 90"
    using assms by auto
  then have "pi * (- 90) < pi * la" "pi * la < pi * 90"
    by (simp_all only: mult_less_cancel_left_pos[OF pi_gt_zero])
  then have "- (pi / 2) < deg2rad la" "deg2rad la < pi / 2"
    by (simp_all add: deg2rad_def field_simps)
  then show "0 < deg2rad la / 2 + pi / 4" "deg2rad la / 2 + pi / 4 < pi / 2"
    by auto
qed

lemma RDP_lng_core:
  assumes "D / er = d" "cos (deg2rad b) = 0" "sin (deg2rad b) = s" "\<bar>la\<bar> < 90"
    "\<bar>deg2rad lo + d * s / cos (deg2rad la)\<bar> < pi / 2"
  shows "Lng (RhumbDestinationPoint er (lo, la) b D) =
    rad2deg (deg2rad lo + d * s / cos (deg2rad la))"
proof -
  have r: "Remainder (deg2rad lo + d * s / cos (deg2rad la) + 3 * pi) (2 * pi - pi)
      = deg2rad lo + d * s / cos (deg2rad la)"
    using assms(5) by (rule Remainder_3pi)
  have t: "tan (deg2rad la / 2 + pi / 4) \<noteq> 0"
    using tan_half_pos[OF assms(4)] by simp
  have z: "(0::real) = 0 \<longleftrightarrow> True"
    by simp
  show ?thesis
    by (simp only: RhumbDestinationPoint_def Let_def Lat_def Lng_def NewPointFromLatLng_def
        fst_conv snd_conv assms(1,2,3) mult_zero_right if_cancel add_0_right divide_self[OF t]
        ln_one z not_True_eq_False if_False r)
qed

lemma RDP_zero_lat:
  assumes "\<bar>deg2rad la\<bar> \<le> pi / 2"
  shows "Lat (RhumbDestinationPoint er (lo, la) b 0) = la"
proof -
  have "\<not> \<bar>deg2rad la\<bar> > pi / 2"
    using assms by simp
  then show ?thesis
    by (simp add: RhumbDestinationPoint_def Let_def Lat_def Lng_def NewPointFromLatLng_def)
       (simp add: deg2rad_def rad2deg_def)
qed

lemma bearing_trig:
  "cos (deg2rad 0) = 1" "cos (deg2rad 180) = - 1"
  "cos (deg2rad 90) = 0" "sin (deg2rad 90) = 1"
  "cos (deg2rad 270) = 0" "sin (deg2rad 270) = - 1"
proof -
  have "deg2rad 270 = 3 / 2 * pi"
    by (simp add: deg2rad_def)
  then show "cos (deg2rad 270) = 0" "sin (deg2rad 270) = - 1"
    by (simp_all only: cos_3over2_pi sin_3over2_pi)
qed (simp_all add: deg2rad_def)

lemma rad2deg_deg2rad: "rad2deg (deg2rad x + y) = x + rad2deg y"
  by (simp add: rad2deg_def deg2rad_def field_simps)

lemma RDP_north:
  assumes "D / er = d" "1 / 10 ^ 10 \<le> d" "\<bar>deg2rad la + d\<bar> \<le> pi / 2"
  shows "Lat (RhumbDestinationPoint er (lo, la) 0 D) = la + rad2deg d"
  using RDP_lat_core[OF assms(1) bearing_trig(1), of la lo] assms(2,3)
  by (simp add: rad2deg_deg2rad)

lemma RDP_south:
  assumes "D / er = d" "1 / 10 ^ 10 \<le> d" "\<bar>deg2rad la - d\<bar> \<le> pi / 2"
  shows "Lat (RhumbDestinationPoint er (lo, la) 180 D) = la - rad2deg d"
proof -
  have "rad2deg (deg2rad la - d) = la - rad2deg d"
    by (simp add: rad2deg_def deg2rad_def field_simps)
  then show ?thesis
    using RDP_lat_core[OF assms(1) bearing_trig(2), of la lo] assms(2,3) by simp
qed

lemma RDP_east:
  assumes "D / er = d" "\<bar>la\<bar> < 90" "\<bar>deg2rad lo + d / cos (deg2rad la)\<bar> < pi / 2"
  shows "Lng (RhumbDestinationPoint er (lo, la) 90 D) = lo + rad2deg (d / cos (deg2rad la))"
  using RDP_lng_core[OF assms(1) bearing_trig(3,4) assms(2), of lo] assms(3)
  by (simp add: rad2deg_deg2rad)

lemma RDP_west:
  assumes "D / er = d" "\<bar>la\<bar> < 90" "\<bar>deg2rad lo - d / cos (deg2rad la)\<bar> < pi / 2"
  shows "Lng (RhumbDestinationPoint er (lo, la) 270 D) = lo - rad2deg (d / cos (deg2rad la))"
proof -
  have "rad2deg (deg2rad lo - d / cos (deg2rad la)) = lo - rad2deg (d / cos (deg2rad la))"
    by (simp add: rad2deg_def deg2rad_def[of lo] field_simps)
  then show ?thesis
    using RDP_lng_core[OF assms(1) bearing_trig(5,6) assms(2), of lo] assms(3) by simp
qed

lemma rad2deg_pos: "0 < x \<Longrightarrow> 0 < rad2deg x"
  by (simp add: rad2deg_def)

section \<open>The cell locators on a grid line\<close>

lemma scanFrom0_on_line:
  assumes "sorted_wrt (<) g" "k < length g" "x \<le> k"
  shows "scanFrom0 g (g ! k) (int x) = Inr (int k)"
  using assms(3)
proof (induction "k - x" arbitrary: x)
  case 0
  then have "x = k"
    by simp
  then show ?case
    using assms(2) by (subst scanFrom0.simps) simp
next
  case (Suc n)
  then have lt: "x < k"
    by simp
  then have "g ! x < g ! k"
    using assms(1,2) by (simp add: sorted_wrt_nth_less)
  moreover have "scanFrom0 g (g ! k) (int (Suc x)) = Inr (int k)"
    using Suc lt by (intro Suc.hyps(1)) auto
  ultimately show ?case
    using lt assms(2) by (subst scanFrom0.simps) (simp add: add.commute)
qed

lemma scanForward_on_line:
  assumes "sorted_wrt (<) g" "k < length g" "x < k"
  shows "scanForward g (g ! k) (int x) = Inr (int k - 1)"
  using assms(3)
proof (induction "k - x" arbitrary: x)
  case 0
  then show ?case
    by simp
next
  case (Suc n)
  show ?case
  proof (cases "Suc x = k")
    case True
    then show ?thesis
      using assms(2) by (subst scanForward.simps) (auto simp: nat_add_distrib)
  next
    case False
    then have lt: "Suc x < k"
      using Suc.prems by simp
    then have "g ! Suc x < g ! k"
      using assms(1,2) by (simp add: sorted_wrt_nth_less)
    moreover have "scanForward g (g ! k) (int (Suc x)) = Inr (int k - 1)"
      using Suc lt by (intro Suc.hyps(1)) auto
    ultimately show ?thesis
      using lt assms(2) by (subst scanForward.simps) (simp add: add.commute nat_add_distrib)
  qed
qed

lemma scanBackward_on_line:
  assumes "sorted_wrt (<) g" "k \<le> x" "x < length g"
  shows "scanBackward g (g ! k) (int x) = Inr (int k)"
  using assms(2,3)
proof (induction "x - k" arbitrary: x)
  case 0
  then have "x = k"
    by simp
  then show ?case
    using 0 by (subst scanBackward.simps) simp
next
  case (Suc n)
  then obtain x' where x': "x = Suc x'" "k \<le> x'"
    by (cases x) auto
  have "k < x"
    using Suc by simp
  then have "g ! k < g ! x"
    using assms(1) Suc.prems by (simp add: sorted_wrt_nth_less)
  moreover have "scanBackward g (g ! k) (int x') = Inr (int k)"
    using Suc x' by (intro Suc.hyps(1)) auto
  moreover have "nat (1 + int x') = Suc x'"
    by simp
  ultimately show ?case
    using Suc.prems x' by (subst scanBackward.simps) simp
qed

lemma scanForward_from_hint:
  assumes "sorted_wrt (<) g" "k < length g" "x + 1 < length g"
  shows "scanForward g (g ! k) (int x) = Inr (max (int x) (int k - 1))"
proof (cases "x < k")
  case True
  then show ?thesis
    using scanForward_on_line[OF assms(1,2) True] by simp
next
  case False
  then have "k < x + 1"
    by simp
  then have "g ! k < g ! (x + 1)"
    using assms(1,3) by (simp add: sorted_wrt_nth_less)
  moreover have "nat (int x + 1) = x + 1"
    by simp
  ultimately show ?thesis
    using assms(3) False by (subst scanForward.simps) simp
qed

lemma scanBackward_from_hint:
  assumes "sorted_wrt (<) g" "k < length g" "x < length g"
  shows "scanBackward g (g ! k) (int x) = Inr (min (int x) (int k))"
proof (cases "k \<le> x")
  case True
  then show ?thesis
    using scanBackward_on_line[OF assms(1) True assms(3)] by simp
next
  case False
  then have "x < k"
    by simp
  then have "g ! x < g ! k"
    using assms(1,2) by (simp add: sorted_wrt_nth_less)
  then show ?thesis
    using assms(3) False by (subst scanBackward.simps) simp
qed

text \<open>
  Claim C8 (a vertex lying exactly on a grid line is assigned to the cell whose lower/left
  edge is that line, uniformly by \<^verbatim>\<open>getCellCoords\<close> and by both scan directions of
  \<^verbatim>\<open>getGridCoordsFromHint\<close>) fails: on the grid lines \<open>0, 1, 2, 3\<close> the vertex \<open>(1, 1)\<close>
  is put into cell \<open>(0, 0)\<close> by \<^verbatim>\<open>getCellCoords\<close>, the cell whose upper/right edge is the
  line, and into cell \<open>(1, 1)\<close> by the backward scan from the hint cell \<open>(2, 2)\<close>.
\<close>

theorem locators_disagree_on_grid_line:
  "getCellCoords [0, 1, 2, 3] [0, 1, 2, 3] (1, 1) = Inr (0, 0) \<and>
   getGridCoordsFromHint [0, 1, 2, 3] [0, 1, 2, 3] (1, 1) (5 / 2, 5 / 2) (2, 2) = Inr (1, 1)"
  by (simp add: getCellCoords_def getGridCoordsFromHint_def bindE_def Lng_def Lat_def
      scanFrom0.simps scanBackward.simps)

text \<open>
  Claim C8 as amended: on strictly increasing grid lines, for a vertex on the longitude
  line \<open>i\<close> and the latitude line \<open>j\<close>, \<^verbatim>\<open>getCellCoords\<close> returns the cell
  \<open>(i - 1, j - 1)\<close>, whose upper/right edges are the lines (on the first line of an
  axis the index is \<open>- 1\<close>, which is no cell of the grid). \<^verbatim>\<open>getGridCoordsFromHint\<close>,
  started from the hint cell \<open>(hx, hy)\<close>, returns on each axis the larger of the hint index
  and the line index less one when it scans forward (the vertex coordinate is greater than
  the hint vertex's), and the smaller of the hint index and the line index when it scans
  backward (otherwise). So a forward scan from a hint cell before the line returns the
  cell whose upper/right edge is the line, a backward scan from a hint cell at or after
  the line returns the cell whose lower/left edge is the line, and a backward scan from a
  hint cell before the line, like a forward scan from a hint cell at or after it, returns
  the hint index.
\<close>

theorem locators_on_grid_line:
  assumes "sorted_wrt (<) lngG" "sorted_wrt (<) latG"
    and "i < length lngG" "j < length latG"
    and "hx + 1 < length lngG" "hy + 1 < length latG"
  shows "getCellCoords latG lngG (lngG ! i, latG ! j) = Inr (int i - 1, int j - 1) \<and>
     getGridCoordsFromHint latG lngG (lngG ! i, latG ! j) h (int hx, int hy)
       = Inr (if Lng h < lngG ! i then max (int hx) (int i - 1) else min (int hx) (int i),
              if Lat h < latG ! j then max (int hy) (int j - 1) else min (int hy) (int j))"
  using assms scanFrom0_on_line[of lngG i 0] scanFrom0_on_line[of latG j 0]
  by (simp add: getCellCoords_def getGridCoordsFromHint_def bindE_def Lng_def Lat_def
      scanForward_from_hint scanBackward_from_hint)

theorem locators_on_grid_line_witness:
  "getCellCoords [0, 1, 2, 3] [0, 1, 2, 3] (2, 1) = Inr (1, 0) \<and>
   getGridCoordsFromHint [0, 1, 2, 3] [0, 1, 2, 3] (2, 1) (1 / 2, 5 / 2) (0, 2) = Inr (1, 1) \<and>
   getGridCoordsFromHint [0, 1, 2, 3] [0, 1, 2, 3] (2, 1) (2, 2) (1, 1) = Inr (1, 1) \<and>
   getGridCoordsFromHint [0, 1, 2, 3] [0, 1, 2, 3] (2, 1) (5 / 2, 5 / 2) (2, 2) = Inr (2, 1)"
  using locators_on_grid_line[of "[0, 1, 2, 3]" "[0, 1, 2, 3]" 2 1 0 2 "(1 / 2, 5 / 2)"]
    locators_on_grid_line[of "[0, 1, 2, 3]" "[0, 1, 2, 3]" 2 1 1 1 "(2, 2)"]
    locators_on_grid_line[of "[0, 1, 2, 3]" "[0, 1, 2, 3]" 2 1 2 2 "(5 / 2, 5 / 2)"]
  by (simp add: Lng_def Lat_def)


section \<open>Routes whose bounding box is a single point\<close>

lemma bound_single: "PointSet_Bound [p] = \<lparr>sw = p, ne = p\<rparr>"
  by (simp add: PointSet_Bound_def)

lemma center_single: "Center \<lparr>sw = p, ne = p\<rparr> = p"
  by (cases p) (simp add: Center_def Lng_def Lat_def)

lemma northLoop_at_edge:
  "northLoop fuel er c dr v 2 (v # g) = Some (Inr (v # g))"
  by (simp add: northLoop.simps index_def)

lemma eastLoop_at_edge:
  "eastLoop fuel er c dr v 2 (v # g) = Some (Inr (v # g))"
  by (simp add: eastLoop.simps index_def)

lemma southLoop_at_edge:
  "southLoop (Suc fuel) er c dr v (Suc 0) [v, n] =
     Some (Inr (if n > v then [Lat (RhumbDestinationPoint er c 180 dr), v, n] else [v, n]))"
  by (simp add: southLoop.simps[of _ _ _ _ _ _ "[v, n]"]
      southLoop.simps[of _ _ _ _ _ _ "[s, v, n]" for s] index_def)

lemma westLoop_at_edge:
  "westLoop (Suc fuel) er c dr v (Suc 0) [v, n] =
     Some (Inr (if n > v then [Lng (RhumbDestinationPoint er c 270 dr), v, n] else [v, n]))"
  by (simp add: westLoop.simps[of _ _ _ _ _ _ "[v, n]"]
      westLoop.simps[of _ _ _ _ _ _ "[s, v, n]" for s] index_def)

lemma buildGrid_point_bound:
  assumes "PointSet_Bound vs = \<lparr>sw = p, ne = p\<rparr>"
  shows "buildGrid (Suc fuel) er (NewRouteBoxer dr vs) =
     (let latG = (if Lat (RhumbDestinationPoint er p 0 dr) > Lat p
                  then [Lat (RhumbDestinationPoint er p 180 dr), Lat p,
                        Lat (RhumbDestinationPoint er p 0 dr)]
                  else [Lat p, Lat (RhumbDestinationPoint er p 0 dr)]);
          lngG = (if Lng (RhumbDestinationPoint er p 90 dr) > Lng p
                  then [Lng (RhumbDestinationPoint er p 270 dr), Lng p,
                        Lng (RhumbDestinationPoint er p 90 dr)]
                  else [Lng p, Lng (RhumbDestinationPoint er p 90 dr)])
      in Some (Inr \<lparr>distanceRange = dr, vertices = vs, latGrid = latG, lngGrid = lngG,
            grid = replicate (length lngG) (replicate (length latG) 0),
            boxesX = [], boxesY = []\<rparr>))"
  by (simp add: buildGrid_def NewRouteBoxer_def assms center_single Let_def bindO_def
      NorthEast_def SouthWest_def northLoop_at_edge eastLoop_at_edge southLoop_at_edge
      westLoop_at_edge)

lemma scanFrom0_center:
  "scanFrom0 [v, n] v 0 = Inr 0"
  "scanFrom0 [s, v, n] v 0 = Inr (if s < v then 1 else 0)"
  by (simp_all add: scanFrom0.simps)

lemma markCell_low: "x \<le> 0 \<Longrightarrow> markCell g (x, y) = Inl IndexOutOfRange"
  by (simp add: markCell_def setCell_def index_def bindE_def Let_def)

lemma Find_single_point:
  assumes "lngG = [Lng p, e] \<or> lngG = [w, Lng p, e]" "latG = [Lat p, n] \<or> latG = [s, Lat p, n]"
  shows "FindIntersectingCells er \<lparr>distanceRange = dr, vertices = [p], latGrid = latG,
            lngGrid = lngG, grid = g, boxesX = bx, boxesY = by\<rparr> = Inl IndexOutOfRange"
  using assms
  by (auto simp: FindIntersectingCells_def getCellCoords_def bindE_def index_def
      scanFrom0_center markCell_low)

lemma Boxes_single_point:
  "Boxes (Suc fuel) er (NewRouteBoxer dr [p]) = Some (Inl IndexOutOfRange)"
  by (simp add: Boxes_def buildGrid_point_bound[OF bound_single] Let_def bindO_def
      Find_single_point bindE_def)


lemma southLoop_stop:
  "\<not> n > v \<Longrightarrow> southLoop fuel er c dr v i (a # n # g) = Some (Inr (a # n # g))"
  by (simp add: southLoop.simps index_def)

lemma westLoop_stop:
  "\<not> n > v \<Longrightarrow> westLoop fuel er c dr v i (a # n # g) = Some (Inr (a # n # g))"
  by (simp add: westLoop.simps index_def)

lemma bound_empty: "PointSet_Bound [] = \<lparr>sw = (0, 0), ne = (0, 0)\<rparr>"
  by (simp add: PointSet_Bound_def)

lemma grid_10_45:
  defines "d \<equiv> 50 / 6378137"
  shows "Lat (RhumbDestinationPoint 6378137 (10, 45) 0 50) = 45 + rad2deg d"
    "Lat (RhumbDestinationPoint 6378137 (10, 45) 180 50) = 45 - rad2deg d"
    "Lng (RhumbDestinationPoint 6378137 (10, 45) 90 50) = 10 + rad2deg (d / cos (deg2rad 45))"
    "Lng (RhumbDestinationPoint 6378137 (10, 45) 270 50) = 10 - rad2deg (d / cos (deg2rad 45))"
    "0 < rad2deg d" "0 < rad2deg (d / cos (deg2rad 45))"
proof -
  have d: "50 / 6378137 = d" "1 / 10 ^ 10 \<le> d" "0 < d" "d < 1 / 100"
    by (simp_all add: d_def)
  have q: "deg2rad 45 = pi / 4" "deg2rad 10 = pi / 18"
    by (simp_all add: deg2rad_def)
  have "1 \<le> sqrt 2"
    by simp
  then have c: "1 / 2 \<le> cos (deg2rad 45)"
    by (simp add: q cos_45)
  then have "d / cos (deg2rad 45) \<le> d / (1 / 2)"
    using d(3) by (intro divide_left_mono) auto
  then have e: "0 < d / cos (deg2rad 45)" "d / cos (deg2rad 45) < 1 / 50"
    using d(3,4) c by auto
  have p: "2 \<le> pi"
    by (rule pi_ge_two)
  have "\<bar>deg2rad 45 + d\<bar> \<le> pi / 2" "\<bar>deg2rad 45 - d\<bar> \<le> pi / 2"
    using d(3,4) p unfolding q by (simp_all add: abs_if)
  then show "Lat (RhumbDestinationPoint 6378137 (10, 45) 0 50) = 45 + rad2deg d"
    "Lat (RhumbDestinationPoint 6378137 (10, 45) 180 50) = 45 - rad2deg d"
    using d(1,2) by (simp_all only: RDP_north RDP_south)
  have "\<bar>deg2rad 10 + d / cos (deg2rad 45)\<bar> < pi / 2"
    "\<bar>deg2rad 10 - d / cos (deg2rad 45)\<bar> < pi / 2"
    using e p unfolding q(2) by (simp_all add: abs_if)
  moreover have "\<bar>45 :: real\<bar> < 90"
    by simp
  ultimately show
    "Lng (RhumbDestinationPoint 6378137 (10, 45) 90 50) = 10 + rad2deg (d / cos (deg2rad 45))"
    "Lng (RhumbDestinationPoint 6378137 (10, 45) 270 50) = 10 - rad2deg (d / cos (deg2rad 45))"
    using d(1) by (simp_all only: RDP_east RDP_west)
  show "0 < rad2deg d" using d(3) by (rule rad2deg_pos)
  show "0 < rad2deg (d / cos (deg2rad 45))" using e(1) by (rule rad2deg_pos)
qed

text \<open>
  Claim C2 (the grid lines are strictly increasing and extend a full cell beyond the
  bounding box on every side, hence \<^verbatim>\<open>markCell\<close> never indexes outside the coverage grid):
  for the single-point route \<open>[(10, 45)]\<close> with range \<open>50\<close> the grid has three strictly
  increasing lines on each axis, the point lying on the middle one; \<^verbatim>\<open>getCellCoords\<close>
  puts the point into cell \<open>(0, 0)\<close>, and \<^verbatim>\<open>markCell\<close> then indexes column \<open>-1\<close>.
\<close>

theorem markCell_out_of_range_single_point:
  "let dy = rad2deg (50 / 6378137); dx = rad2deg (50 / 6378137 / cos (deg2rad 45));
       latG = [45 - dy, 45, 45 + dy]; lngG = [10 - dx, 10, 10 + dx];
       g = [[0, 0, 0], [0, 0, 0], [0, 0, 0]]
   in buildGrid 1 6378137 (NewRouteBoxer 50 [(10, 45)]) =
        Some (Inr \<lparr>distanceRange = 50, vertices = [(10, 45)], latGrid = latG, lngGrid = lngG,
                    grid = g, boxesX = [], boxesY = []\<rparr>) \<and>
      sorted_wrt (<) latG \<and> sorted_wrt (<) lngG \<and>
      getCellCoords latG lngG (10, 45) = Inr (0, 0) \<and>
      markCell g (0, 0) = Inl IndexOutOfRange"
  using buildGrid_point_bound[OF bound_single, of 0 6378137 50 "(10, 45)"] grid_10_45(5,6)
  by (simp add: grid_10_45(1-4) Let_def Lat_def[of "(10, 45)"] Lng_def[of "(10, 45)"]
      getCellCoords_def scanFrom0.simps bindE_def markCell_low numeral_eq_Suc)

text \<open>
  Claim C4 (for the single-point route \<open>[(10, 45)]\<close> with range \<open>50\<close>, \<^verbatim>\<open>Boxes\<close> returns
  exactly one rectangle of 3 by 3 cells, without any out-of-bounds access): the call ends
  in the index-out-of-range panic of \<^verbatim>\<open>markCell\<close> and returns nothing.
\<close>

theorem Boxes_single_point_10_45_panics:
  "Boxes 1 6378137 (NewRouteBoxer 50 [(10, 45)]) = Some (Inl IndexOutOfRange)"
  using Boxes_single_point[of 0 6378137 50 "(10, 45)"] by simp

text \<open>
  Claim C9 (the empty route is rejected with an invalid-input error instead of panicking)
  fails: the program has no such check; the grid is built around the point \<open>(0, 0)\<close> and
  \<^verbatim>\<open>FindIntersectingCells\<close> panics on \<^verbatim>\<open>vertices[0]\<close>.
\<close>

theorem Boxes_empty_route_panics_at_50:
  "Boxes 1 6378137 (NewRouteBoxer 50 []) = Some (Inl IndexOutOfRange)"
  using buildGrid_point_bound[OF bound_empty, of 0 6378137 50]
  by (simp add: Boxes_def Let_def bindO_def bindE_def FindIntersectingCells_def index_def)

text \<open>
  Claim C9 as amended: for the empty route, whatever the range and the earth radius, a
  call of \<^verbatim>\<open>Boxes\<close> whose growth loops may iterate at least once ends in an
  index-out-of-range panic.
\<close>

theorem Boxes_empty_route_panics:
  "Boxes (Suc fuel) er (NewRouteBoxer dr []) = Some (Inl IndexOutOfRange)"
proof -
  obtain r1 where r1: "buildGrid (Suc fuel) er (NewRouteBoxer dr []) = Some (Inr r1)"
    and v: "vertices r1 = []"
    using buildGrid_point_bound[OF bound_empty, of fuel er dr] by (simp add: Let_def)
  have "FindIntersectingCells er r1 = Inl IndexOutOfRange"
    by (simp add: FindIntersectingCells_def v index_def bindE_def)
  then show ?thesis
    by (simp add: Boxes_def r1 bindO_def bindE_def)
qed

section \<open>The northward loop on a range of zero\<close>

lemma northLoop_hangs:
  assumes "\<forall>v \<in> set g. v < neLat" "length g = i" "2 \<le> i"
    "\<And>k. Lat (RhumbDestinationPoint er c 0 (dr * of_nat k)) < neLat"
  shows "northLoop fuel er c dr neLat i g = None"
  using assms(1,2,3)
proof (induction fuel arbitrary: i g)
  case 0
  then have "index g (int i - 2) = Inr (g ! (i - 2))" "g ! (i - 2) \<in> set g"
    by (auto simp: index_def nat_diff_distrib')
  with 0 show ?case
    by (subst northLoop.simps) simp
next
  case (Suc fuel)
  then have "index g (int i - 2) = Inr (g ! (i - 2))" "g ! (i - 2) \<in> set g"
    by (auto simp: index_def nat_diff_distrib')
  moreover have "northLoop fuel er c dr neLat (i + 1)
      (g @ [Lat (RhumbDestinationPoint er c 0 (dr * of_nat i))]) = None"
    using Suc.prems assms(4) by (intro Suc.IH) auto
  ultimately show ?case
    using Suc.prems by (subst northLoop.simps) simp
qed

lemma Boxes_zero_range_hangs:
  assumes "\<bar>Lat (Center (PointSet_Bound vs))\<bar> \<le> 90"
    "Lat (Center (PointSet_Bound vs)) < Lat (NorthEast (PointSet_Bound vs))"
  shows "Boxes fuel er (NewRouteBoxer 0 vs) = None"
proof -
  obtain lo la where c: "Center (PointSet_Bound vs) = (lo, la)"
    by (cases "Center (PointSet_Bound vs)")
  have la: "\<bar>la\<bar> \<le> 90" "la < Lat (NorthEast (PointSet_Bound vs))"
    using assms c by (simp_all add: Lat_def)
  have "\<bar>la\<bar> * pi \<le> 90 * pi"
    using la(1) by (intro mult_right_mono) auto
  then have "\<bar>deg2rad la\<bar> \<le> pi / 2"
    by (simp add: deg2rad_def abs_mult)
  then have z: "Lat (RhumbDestinationPoint er (lo, la) 0 0) = la"
    by (rule RDP_zero_lat)
  have "northLoop fuel er (lo, la) 0 (Lat (NorthEast (PointSet_Bound vs))) 2 [la, la] = None"
    using la(2) z by (intro northLoop_hangs) auto
  then show ?thesis
    by (simp add: Boxes_def buildGrid_def NewRouteBoxer_def Let_def c z bindO_def
        Lat_def[of "(lo, la)"])
qed


section \<open>What each stage of Boxes changes\<close>

lemma bindO_Inr:
  "bindO m f = Some (Inr y) \<longleftrightarrow> (\<exists>v. m = Some (Inr v) \<and> f v = Some (Inr y))"
  by (auto simp: bindO_def split: option.splits sum.splits)

lemma bindE_Inr:
  "bindE m f = Inr y \<longleftrightarrow> (\<exists>v. m = Inr v \<and> f v = Inr y)"
  by (auto simp: bindE_def split: sum.splits)

lemma northLoop_appends:
  "northLoop fuel er c dr neLat i g = Some (Inr g') \<Longrightarrow> \<exists>ss. g' = g @ ss"
proof (induction fuel arbitrary: i g)
  case 0
  then show ?case
    by (subst (asm) northLoop.simps) (auto split: sum.splits if_splits)
next
  case (Suc fuel)
  from Suc.prems show ?case
    by (subst (asm) northLoop.simps) (auto split: sum.splits if_splits dest!: Suc.IH)
qed

lemma eastLoop_appends:
  "eastLoop fuel er c dr neLng i g = Some (Inr g') \<Longrightarrow> \<exists>ss. g' = g @ ss"
proof (induction fuel arbitrary: i g)
  case 0
  then show ?case
    by (subst (asm) eastLoop.simps) (auto split: sum.splits if_splits)
next
  case (Suc fuel)
  from Suc.prems show ?case
    by (subst (asm) eastLoop.simps) (auto split: sum.splits if_splits dest!: Suc.IH)
qed

lemma southLoop_prepends:
  "southLoop fuel er c dr swLat i g = Some (Inr g') \<Longrightarrow> \<exists>ps. g' = ps @ g"
proof (induction fuel arbitrary: i g)
  case 0
  then show ?case
    by (subst (asm) southLoop.simps) (auto split: sum.splits if_splits)
next
  case (Suc fuel)
  from Suc.prems show ?case
    by (subst (asm) southLoop.simps) (force split: sum.splits if_splits dest!: Suc.IH)
qed

lemma westLoop_prepends:
  "westLoop fuel er c dr swLng i g = Some (Inr g') \<Longrightarrow> \<exists>ps. g' = ps @ g"
proof (induction fuel arbitrary: i g)
  case 0
  then show ?case
    by (subst (asm) westLoop.simps) (auto split: sum.splits if_splits)
next
  case (Suc fuel)
  from Suc.prems show ?case
    by (subst (asm) westLoop.simps) (force split: sum.splits if_splits dest!: Suc.IH)
qed

lemma buildGrid_frame:
  assumes "buildGrid fuel er r = Some (Inr r1)"
  shows "distanceRange r1 = distanceRange r" "vertices r1 = vertices r"
    "boxesX r1 = boxesX r" "boxesY r1 = boxesY r"
    "\<exists>ps ss. latGrid r1 = ps @ latGrid r @ ss \<and> 2 \<le> length ss"
    "\<exists>ps ss. lngGrid r1 = ps @ lngGrid r @ ss \<and> 2 \<le> length ss"
    "grid r1 = replicate (length (lngGrid r1)) (replicate (length (latGrid r1)) 0)"
proof -
  let ?b = "PointSet_Bound (vertices r)"
  let ?c = "Center ?b"
  let ?dr = "distanceRange r"
  obtain lat2 lat3 lng2 lng3 where
    n: "northLoop fuel er ?c ?dr (Lat (NorthEast ?b)) 2
          ((latGrid r @ [Lat ?c]) @ [Lat (RhumbDestinationPoint er ?c 0 ?dr)]) = Some (Inr lat2)"
    and s: "southLoop fuel er ?c ?dr (Lat (SouthWest ?b)) 1 lat2 = Some (Inr lat3)"
    and e: "eastLoop fuel er ?c ?dr (Lng (NorthEast ?b)) 2
          ((lngGrid r @ [Lng ?c]) @ [Lng (RhumbDestinationPoint er ?c 90 ?dr)]) = Some (Inr lng2)"
    and w: "westLoop fuel er ?c ?dr (Lng (SouthWest ?b)) 1 lng2 = Some (Inr lng3)"
    and r1: "r1 = r\<lparr>latGrid := lat3, lngGrid := lng3,
                  grid := replicate (length lng3) (replicate (length lat3) 0)\<rparr>"
    using assms by (auto simp: buildGrid_def Let_def bindO_Inr)
  show "distanceRange r1 = distanceRange r" "vertices r1 = vertices r"
    "boxesX r1 = boxesX r" "boxesY r1 = boxesY r"
    "grid r1 = replicate (length (lngGrid r1)) (replicate (length (latGrid r1)) 0)"
    by (simp_all add: r1)
  from northLoop_appends[OF n] southLoop_prepends[OF s]
  obtain ps ss where "lat3 = ps @ latGrid r @ ([Lat ?c, Lat (RhumbDestinationPoint er ?c 0 ?dr)] @ ss)"
    by auto
  then show "\<exists>ps ss. latGrid r1 = ps @ latGrid r @ ss \<and> 2 \<le> length ss"
    unfolding r1 by (intro exI[of _ ps] exI[of _ "[Lat ?c, Lat (RhumbDestinationPoint er ?c 0 ?dr)] @ ss"]) simp
  from eastLoop_appends[OF e] westLoop_prepends[OF w]
  obtain ps ss where "lng3 = ps @ lngGrid r @ ([Lng ?c, Lng (RhumbDestinationPoint er ?c 90 ?dr)] @ ss)"
    by auto
  then show "\<exists>ps ss. lngGrid r1 = ps @ lngGrid r @ ss \<and> 2 \<le> length ss"
    unfolding r1 by (intro exI[of _ ps] exI[of _ "[Lng ?c, Lng (RhumbDestinationPoint er ?c 90 ?dr)] @ ss"]) simp
qed

lemma setCell_dims: "setCell g x y = Inr g' \<Longrightarrow> map length g' = map length g"
  by (auto simp: setCell_def bindE_Inr index_def map_update list_update_same_conv split: if_splits)

lemma markCell_dims: "markCell g c = Inr g' \<Longrightarrow> map length g' = map length g"
  unfolding markCell_def Let_def bindE_Inr
  by (elim exE conjE) (auto dest!: setCell_dims)

lemma fillUp_dims: "fillUp g x endx y = Inr g' \<Longrightarrow> map length g' = map length g"
proof (induction g x endx y rule: fillUp.induct)
  case (1 g x endx y)
  from "1.prems" show ?case
    by (subst (asm) fillUp.simps) (auto simp: bindE_Inr split: if_splits dest!: "1.IH" markCell_dims)
qed

lemma fillDown_dims: "fillDown g x endx y = Inr g' \<Longrightarrow> map length g' = map length g"
proof (induction g x endx y rule: fillDown.induct)
  case (1 g x endx y)
  from "1.prems" show ?case
    by (subst (asm) fillDown.simps) (auto simp: bindE_Inr split: if_splits dest!: "1.IH" markCell_dims)
qed

lemma fillInGridSquares_dims:
  "fillInGridSquares g startx endx y = Inr g' \<Longrightarrow> map length g' = map length g"
  by (auto simp: fillInGridSquares_def split: if_splits dest: fillUp_dims fillDown_dims)

lemma intersectsNorth_dims:
  "intersectsNorth er latG lngG start brng endY i hint hintXY g = Inr (i', hintXY', g')
    \<Longrightarrow> map length g' = map length g"
proof (induction er latG lngG start brng endY i hint hintXY g rule: intersectsNorth.induct)
  case (1 er latG lngG start brng endY i hint hintXY g)
  from "1.prems" show ?case
    by (subst (asm) intersectsNorth.simps)
      (auto simp: bindE_Inr Let_def split: if_splits dest!: "1.IH" fillInGridSquares_dims)
qed

lemma intersectsSouth_dims:
  "intersectsSouth er latG lngG start brng endY i hint hintXY g = Inr (i', hintXY', g')
    \<Longrightarrow> map length g' = map length g"
proof (induction er latG lngG start brng endY i hint hintXY g rule: intersectsSouth.induct)
  case (1 er latG lngG start brng endY i hint hintXY g)
  from "1.prems" show ?case
    by (subst (asm) intersectsSouth.simps)
      (auto simp: bindE_Inr Let_def split: if_splits dest!: "1.IH" fillInGridSquares_dims)
qed

lemma getGridIntersects_dims:
  "getGridIntersects er latG lngG g start end' startXY endXY = Inr g'
    \<Longrightarrow> map length g' = map length g"
  by (auto simp: getGridIntersects_def Let_def bindE_Inr split: if_splits
      dest!: intersectsNorth_dims intersectsSouth_dims fillInGridSquares_dims)

lemma findLoop_dims:
  "findLoop er latG lngG prev vs hintXY g = Inr g' \<Longrightarrow> map length g' = map length g"
proof (induction vs arbitrary: prev hintXY g)
  case Nil
  then show ?case by simp
next
  case (Cons v vs)
  from Cons.prems show ?case
    by (auto simp: bindE_Inr split: if_splits dest!: Cons.IH markCell_dims getGridIntersects_dims)
qed

lemma FindIntersectingCells_frame:
  assumes "FindIntersectingCells er r = Inr r'"
  shows "\<exists>g'. r' = r\<lparr>grid := g'\<rparr> \<and> map length g' = map length (grid r)"
  using assms
  by (auto simp: FindIntersectingCells_def bindE_Inr dest!: findLoop_dims markCell_dims)
















lemma mergeIntersectingCells_frame:
  assumes "mergeIntersectingCells r = Inr r'"
  shows "\<exists>bsX bsY. r' = r\<lparr>boxesX := bsX, boxesY := bsY\<rparr> \<and>
    rowScan (latGrid r) (lngGrid r) (grid r) 0 (boxesY r) = Inr bsY \<and>
    colScan (latGrid r) (lngGrid r) (grid r) 0 (boxesX r) = Inr bsX"
  using assms by (auto simp: mergeIntersectingCells_def bindE_Inr)

lemma Boxes_Inr:
  assumes "Boxes fuel er r = Some (Inr (res, r'))"
  obtains r1 r2 where "buildGrid fuel er r = Some (Inr r1)"
    "FindIntersectingCells er r1 = Inr r2" "mergeIntersectingCells r2 = Inr r'"
    "res = (if length (boxesX r') \<le> length (boxesY r') then boxesX r' else boxesY r')"
  using assms by (auto simp: Boxes_def bindO_Inr bindE_Inr)


section \<open>Ranges that are not positive\<close>

lemma northLoop_no_error:
  "2 \<le> i \<Longrightarrow> i \<le> length g + 1 \<Longrightarrow> northLoop fuel er c dr neLat i g \<noteq> Some (Inl e)"
proof (induction fuel arbitrary: i g)
  case 0
  then show ?case
    by (subst northLoop.simps) (auto simp: index_def split: sum.splits)
next
  case (Suc fuel)
  have "northLoop fuel er c dr neLat (i + 1)
      (g @ [Lat (RhumbDestinationPoint er c 0 (dr * of_nat i))]) \<noteq> Some (Inl e)"
    using Suc.prems by (intro Suc.IH) auto
  then show ?case
    using Suc.prems by (subst northLoop.simps) (auto simp: index_def split: sum.splits)
qed

lemma eastLoop_no_error:
  "2 \<le> i \<Longrightarrow> i \<le> length g + 1 \<Longrightarrow> eastLoop fuel er c dr neLng i g \<noteq> Some (Inl e)"
proof (induction fuel arbitrary: i g)
  case 0
  then show ?case
    by (subst eastLoop.simps) (auto simp: index_def split: sum.splits)
next
  case (Suc fuel)
  have "eastLoop fuel er c dr neLng (i + 1)
      (g @ [Lng (RhumbDestinationPoint er c 90 (dr * of_nat i))]) \<noteq> Some (Inl e)"
    using Suc.prems by (intro Suc.IH) auto
  then show ?case
    using Suc.prems by (subst eastLoop.simps) (auto simp: index_def split: sum.splits)
qed

lemma southLoop_no_error:
  "2 \<le> length g \<Longrightarrow> southLoop fuel er c dr swLat i g \<noteq> Some (Inl e)"
proof (induction fuel arbitrary: i g)
  case 0
  then show ?case
    by (subst southLoop.simps) (auto simp: index_def split: sum.splits)
next
  case (Suc fuel)
  have "southLoop fuel er c dr swLat (i + 1)
      (Lat (RhumbDestinationPoint er c 180 (dr * of_nat i)) # g) \<noteq> Some (Inl e)"
    using Suc.prems by (intro Suc.IH) auto
  then show ?case
    using Suc.prems by (subst southLoop.simps) (auto simp: index_def split: sum.splits)
qed

lemma westLoop_no_error:
  "2 \<le> length g \<Longrightarrow> westLoop fuel er c dr swLng i g \<noteq> Some (Inl e)"
proof (induction fuel arbitrary: i g)
  case 0
  then show ?case
    by (subst westLoop.simps) (auto simp: index_def split: sum.splits)
next
  case (Suc fuel)
  have "westLoop fuel er c dr swLng (i + 1)
      (Lng (RhumbDestinationPoint er c 270 (dr * of_nat i)) # g) \<noteq> Some (Inl e)"
    using Suc.prems by (intro Suc.IH) auto
  then show ?case
    using Suc.prems by (subst westLoop.simps) (auto simp: index_def split: sum.splits)
qed

lemma bindO_no_error:
  assumes "m \<noteq> Some (Inl e)" "\<And>v. m = Some (Inr v) \<Longrightarrow> f v \<noteq> Some (Inl e)"
  shows "bindO m f \<noteq> Some (Inl e)"
  using assms by (cases e) (auto simp: bindO_def split: option.splits sum.splits)

lemma buildGrid_no_error: "buildGrid fuel er r \<noteq> Some (Inl e)"
  unfolding buildGrid_def Let_def
proof (intro bindO_no_error)
  fix lat2 lat3 lng2
  let ?b = "PointSet_Bound (vertices r)"
  show "northLoop fuel er (Center ?b) (distanceRange r) (Lat (NorthEast ?b)) 2
     ((latGrid r @ [Lat (Center ?b)]) @
      [Lat (RhumbDestinationPoint er (Center ?b) 0 (distanceRange r))]) \<noteq> Some (Inl e)"
    by (rule northLoop_no_error) simp_all
  assume "northLoop fuel er (Center ?b) (distanceRange r) (Lat (NorthEast ?b)) 2
     ((latGrid r @ [Lat (Center ?b)]) @
      [Lat (RhumbDestinationPoint er (Center ?b) 0 (distanceRange r))]) = Some (Inr lat2)"
  from northLoop_appends[OF this]
  show "southLoop fuel er (Center ?b) (distanceRange r) (Lat (SouthWest ?b)) 1 lat2 \<noteq> Some (Inl e)"
    by (intro southLoop_no_error) auto
  show "eastLoop fuel er (Center ?b) (distanceRange r) (Lng (NorthEast ?b)) 2
     ((lngGrid r @ [Lng (Center ?b)]) @
      [Lng (RhumbDestinationPoint er (Center ?b) 90 (distanceRange r))]) \<noteq> Some (Inl e)"
    by (rule eastLoop_no_error) simp_all
  assume "eastLoop fuel er (Center ?b) (distanceRange r) (Lng (NorthEast ?b)) 2
     ((lngGrid r @ [Lng (Center ?b)]) @
      [Lng (RhumbDestinationPoint er (Center ?b) 90 (distanceRange r))]) = Some (Inr lng2)"
  from eastLoop_appends[OF this]
  show "westLoop fuel er (Center ?b) (distanceRange r) (Lng (SouthWest ?b)) 1 lng2 \<noteq> Some (Inl e)"
    by (intro westLoop_no_error) auto
qed simp

lemma buildGrid_first_lines:
  assumes "buildGrid fuel er r = Some (Inr r1)"
  shows "\<exists>ps ss. latGrid r1 = ps @ latGrid r @
    [Lat (Center (PointSet_Bound (vertices r))),
     Lat (RhumbDestinationPoint er (Center (PointSet_Bound (vertices r))) 0 (distanceRange r))] @ ss"
proof -
  let ?b = "PointSet_Bound (vertices r)"
  let ?c = "Center ?b"
  let ?dr = "distanceRange r"
  obtain lat2 lat3 where
    n: "northLoop fuel er ?c ?dr (Lat (NorthEast ?b)) 2
          ((latGrid r @ [Lat ?c]) @ [Lat (RhumbDestinationPoint er ?c 0 ?dr)]) = Some (Inr lat2)"
    and s: "southLoop fuel er ?c ?dr (Lat (SouthWest ?b)) 1 lat2 = Some (Inr lat3)"
    and r1: "latGrid r1 = lat3"
    using assms by (auto simp: buildGrid_def Let_def bindO_Inr)
  from northLoop_appends[OF n] southLoop_prepends[OF s] show ?thesis
    unfolding r1 by auto
qed

lemma negative_range_grid_not_increasing:
  assumes d: "dr / er \<le> - (1 / 10 ^ 10)"
    and p: "\<bar>deg2rad (Lat (Center (PointSet_Bound vs))) + dr / er\<bar> \<le> pi / 2"
    and b: "buildGrid fuel er (NewRouteBoxer dr vs) = Some (Inr r1)"
  shows "\<not> sorted_wrt (<) (latGrid r1)"
proof -
  obtain lo la where c: "Center (PointSet_Bound vs) = (lo, la)"
    by (cases "Center (PointSet_Bound vs)")
  have la: "Lat (lo, la) = la"
    by (simp add: Lat_def)
  define d where "d = dr / er"
  have dneg: "d \<le> - (1 / 10 ^ 10)" and pp: "\<bar>deg2rad la + d\<bar> \<le> pi / 2"
    using d p by (simp_all add: c la d_def)
  then have "1 / 10 ^ 10 \<le> \<bar>d * 1\<bar>" "\<bar>deg2rad la + d * 1\<bar> \<le> pi / 2"
    by simp_all
  from RDP_lat_core[OF d_def[symmetric] bearing_trig(1) this, of lo]
  have "Lat (RhumbDestinationPoint er (lo, la) 0 dr) = la + rad2deg d"
    by (simp add: rad2deg_deg2rad)
  moreover have "d < 0"
    using dneg by (rule order_le_less_trans) simp
  then have "rad2deg d < 0"
    by (simp add: rad2deg_def field_simps)
  ultimately have n: "Lat (RhumbDestinationPoint er (lo, la) 0 dr) < la"
    by simp
  from buildGrid_first_lines[OF b] obtain ps ss where
    "latGrid r1 = ps @ [la, Lat (RhumbDestinationPoint er (lo, la) 0 dr)] @ ss"
    by (auto simp: NewRouteBoxer_def c la)
  then show ?thesis
    using n by (auto simp: sorted_wrt_append)
qed

lemma grid_10_45_negative:
  defines "d \<equiv> 50 / 6378137"
  shows "Lat (RhumbDestinationPoint 6378137 (10, 45) 0 (- 50)) = 45 - rad2deg d"
    "Lng (RhumbDestinationPoint 6378137 (10, 45) 90 (- 50)) = 10 - rad2deg (d / cos (deg2rad 45))"
proof -
  have d: "- 50 / 6378137 = - d" "1 / 10 ^ 10 \<le> d" "0 < d" "d < 1 / 100"
    by (simp_all add: d_def)
  have q: "deg2rad 45 = pi / 4" "deg2rad 10 = pi / 18"
    by (simp_all add: deg2rad_def)
  have "1 \<le> sqrt 2"
    by simp
  then have c: "1 / 2 \<le> cos (deg2rad 45)"
    by (simp add: q cos_45)
  then have "d / cos (deg2rad 45) \<le> d / (1 / 2)"
    using d(3) by (intro divide_left_mono) auto
  then have e: "0 < d / cos (deg2rad 45)" "d / cos (deg2rad 45) < 1 / 50"
    using d(3,4) c by auto
  have p: "2 \<le> pi"
    by (rule pi_ge_two)
  have "1 / 10 ^ 10 \<le> \<bar>- d * 1\<bar>" "\<bar>deg2rad 45 + - d * 1\<bar> \<le> pi / 2"
    using d(2,3,4) p unfolding q by (simp_all add: abs_if)
  from RDP_lat_core[OF d(1) bearing_trig(1) this, of 10]
  have "Lat (RhumbDestinationPoint 6378137 (10, 45) 0 (- 50)) = 45 + rad2deg (- d * 1)"
    by (simp only: rad2deg_deg2rad)
  then show "Lat (RhumbDestinationPoint 6378137 (10, 45) 0 (- 50)) = 45 - rad2deg d"
    by (simp add: rad2deg_def)
  have "\<bar>deg2rad 10 + - d / cos (deg2rad 45)\<bar> < pi / 2"
    using e p unfolding q(2) by (simp add: abs_if)
  moreover have "\<bar>45 :: real\<bar> < 90"
    by simp
  ultimately have "Lng (RhumbDestinationPoint 6378137 (10, 45) 90 (- 50))
      = 10 + rad2deg (- d / cos (deg2rad 45))"
    using d(1) by (simp only: RDP_east)
  then show "Lng (RhumbDestinationPoint 6378137 (10, 45) 90 (- 50))
      = 10 - rad2deg (d / cos (deg2rad 45))"
    by (simp add: rad2deg_def)
qed

lemma buildGrid_10_45_negative:
  "buildGrid 1 6378137 (NewRouteBoxer (- 50) [(10, 45)]) =
     Some (Inr \<lparr>distanceRange = - 50, vertices = [(10, 45)],
       latGrid = [45, 45 - rad2deg (50 / 6378137)],
       lngGrid = [10, 10 - rad2deg (50 / 6378137 / cos (deg2rad 45))],
       grid = [[0, 0], [0, 0]], boxesX = [], boxesY = []\<rparr>)"
  using buildGrid_point_bound[OF bound_single, of 0 6378137 "- 50" "(10, 45)"] grid_10_45(5,6)
  by (simp add: grid_10_45_negative Let_def Lat_def[of "(10, 45)"] Lng_def[of "(10, 45)"])

text \<open>
  Claim C3 (a range that is zero or negative is rejected with an error before the
  grid-growth loops run, instead of hanging or returning a degenerate result) fails: the
  program has no such check. For the route \<open>[(0, 0), (0, 1)]\<close> and range \<open>0\<close> the
  northward loop compares the centre latitude \<open>1 / 2\<close> with the north edge \<open>1\<close> on every
  pass and appends the centre latitude again, so \<^verbatim>\<open>Boxes\<close> returns nothing, neither a
  result nor an error, however many passes it is allowed.
\<close>

theorem Boxes_hangs_on_zero_range:
  "\<forall>fuel. Boxes fuel 6378137 (NewRouteBoxer 0 [(0, 0), (0, 1)]) = None"
proof
  fix fuel
  show "Boxes fuel 6378137 (NewRouteBoxer 0 [(0, 0), (0, 1)]) = None"
    by (rule Boxes_zero_range_hangs)
      (simp_all add: PointSet_Bound_def Extend_def Center_def NorthEast_def Lat_def Lng_def)
qed

text \<open>
  Claim C3 as amended: a range that is zero or negative is not rejected.
  \<^verbatim>\<open>NewRouteBoxer\<close> stores the range unchecked and \<^verbatim>\<open>buildGrid\<close> signals no error,
  whatever the range and the route. With range \<open>0\<close> and a route whose bounding box has
  its centre latitude within 90 degrees and strictly south of its north edge, the
  northward growth loop never exits, so \<^verbatim>\<open>Boxes\<close> returns nothing however many passes it
  is allowed. With a negative range, of at least \<open>1 / 10 ^ 10\<close> earth radii in size and
  with the first step from the centre not passing a pole, every grid that \<^verbatim>\<open>buildGrid\<close>
  returns is degenerate: its latitude lines are not increasing, the line after the centre
  line lying south of it.
\<close>

theorem nonpositive_range_not_rejected:
  "distanceRange (NewRouteBoxer dr vs) = dr \<and>
   buildGrid fuel er (NewRouteBoxer dr vs) \<noteq> Some (Inl e) \<and>
   (\<bar>Lat (Center (PointSet_Bound vs))\<bar> \<le> 90 \<and>
    Lat (Center (PointSet_Bound vs)) < Lat (NorthEast (PointSet_Bound vs)) \<longrightarrow>
      Boxes fuel er (NewRouteBoxer 0 vs) = None) \<and>
   (dr / er \<le> - (1 / 10 ^ 10) \<and>
    \<bar>deg2rad (Lat (Center (PointSet_Bound vs))) + dr / er\<bar> \<le> pi / 2 \<and>
    buildGrid fuel er (NewRouteBoxer dr vs) = Some (Inr r1) \<longrightarrow>
      \<not> sorted_wrt (<) (latGrid r1))"
proof (intro conjI impI)
  show "distanceRange (NewRouteBoxer dr vs) = dr"
    by (simp add: NewRouteBoxer_def)
next
  show "buildGrid fuel er (NewRouteBoxer dr vs) \<noteq> Some (Inl e)"
    by (rule buildGrid_no_error)
next
  assume "\<bar>Lat (Center (PointSet_Bound vs))\<bar> \<le> 90 \<and>
    Lat (Center (PointSet_Bound vs)) < Lat (NorthEast (PointSet_Bound vs))"
  then show "Boxes fuel er (NewRouteBoxer 0 vs) = None"
    using Boxes_zero_range_hangs by blast
next
  assume "dr / er \<le> - (1 / 10 ^ 10) \<and>
    \<bar>deg2rad (Lat (Center (PointSet_Bound vs))) + dr / er\<bar> \<le> pi / 2 \<and>
    buildGrid fuel er (NewRouteBoxer dr vs) = Some (Inr r1)"
  then show "\<not> sorted_wrt (<) (latGrid r1)"
    using negative_range_grid_not_increasing by blast
qed

theorem nonpositive_range_not_rejected_witness:
  "distanceRange (NewRouteBoxer (- 50) [(10, 45)]) = - 50 \<and>
   buildGrid 1 6378137 (NewRouteBoxer (- 50) [(10, 45)]) \<noteq> Some (Inl IndexOutOfRange) \<and>
   Boxes 1000 6378137 (NewRouteBoxer 0 [(0, 0), (0, 1)]) = None \<and>
   buildGrid 1 6378137 (NewRouteBoxer (- 50) [(10, 45)]) =
     Some (Inr \<lparr>distanceRange = - 50, vertices = [(10, 45)],
       latGrid = [45, 45 - rad2deg (50 / 6378137)],
       lngGrid = [10, 10 - rad2deg (50 / 6378137 / cos (deg2rad 45))],
       grid = [[0, 0], [0, 0]], boxesX = [], boxesY = []\<rparr>) \<and>
   \<not> sorted_wrt (<) [45, 45 - rad2deg (50 / 6378137)]"
proof -
  let ?r1 = "\<lparr>distanceRange = - 50, vertices = [(10, 45)],
       latGrid = [45, 45 - rad2deg (50 / 6378137)],
       lngGrid = [10, 10 - rad2deg (50 / 6378137 / cos (deg2rad 45))],
       grid = [[0, 0], [0, 0]], boxesX = [], boxesY = []\<rparr>"
  have c1: "Center (PointSet_Bound [(0, 0), (0, 1)]) = (0, 1 / 2)"
    "NorthEast (PointSet_Bound [(0, 0), (0, 1)]) = (0, 1)"
    by (simp_all add: PointSet_Bound_def Extend_def Center_def NorthEast_def Lat_def Lng_def)
  have c2: "Center (PointSet_Bound [(10, 45)]) = (10, 45)"
    by (simp add: bound_single center_single)
  have h: "\<bar>deg2rad 45 + - 50 / 6378137\<bar> \<le> pi / 2"
    using pi_ge_two by (simp add: deg2rad_def abs_if)
  note t = nonpositive_range_not_rejected[of "- 50" "[(10, 45)]" 1 6378137 IndexOutOfRange ?r1]
    nonpositive_range_not_rejected[of 0 "[(0, 0), (0, 1)]" 1000 6378137 IndexOutOfRange ?r1]
  show ?thesis
    using t h buildGrid_10_45_negative by (simp add: c1 c2 Lat_def)
qed


section \<open>The worked example, evaluated\<close>

lemma RDP_origin:
  assumes "dr / er = d" "1 / 10 ^ 10 \<le> d" "real k * d < pi / 2" "0 < k"
  shows "Lat (RhumbDestinationPoint er (0, 0) 0 (dr * real k)) = real k * rad2deg d"
    "Lat (RhumbDestinationPoint er (0, 0) 180 (dr * real k)) = - (real k * rad2deg d)"
    "Lng (RhumbDestinationPoint er (0, 0) 90 (dr * real k)) = real k * rad2deg d"
    "Lng (RhumbDestinationPoint er (0, 0) 270 (dr * real k)) = - (real k * rad2deg d)"
proof -
  have k: "dr * real k / er = real k * d"
    using assms(1) by auto
  have "1 \<le> real k"
    using assms(4) by simp
  then have "1 * d \<le> real k * d"
    using assms(2) by (intro mult_right_mono) auto
  then have "d \<le> real k * d"
    by simp
  with assms(2) have g1: "1 / 10 ^ 10 \<le> real k * d"
    by (rule order_trans)
  then have g2: "0 \<le> real k * d"
    by (rule order_trans[rotated]) simp
  note g = g1 g2
  have z: "deg2rad 0 = 0" "cos 0 = (1::real)" "\<bar>0::real\<bar> < 90"
    by (simp_all add: deg2rad_def)
  have r: "rad2deg (real k * d) = real k * rad2deg d"
    by (simp add: rad2deg_def)
  show "Lat (RhumbDestinationPoint er (0, 0) 0 (dr * real k)) = real k * rad2deg d"
    using RDP_north[OF k g(1), of 0 0] g(2) assms(3) by (simp add: z r)
  show "Lat (RhumbDestinationPoint er (0, 0) 180 (dr * real k)) = - (real k * rad2deg d)"
    using RDP_south[OF k g(1), of 0 0] g(2) assms(3) by (simp add: z r)
  show "Lng (RhumbDestinationPoint er (0, 0) 90 (dr * real k)) = real k * rad2deg d"
    using RDP_east[OF k z(3), of 0] g(2) assms(3) by (simp add: z r)
  show "Lng (RhumbDestinationPoint er (0, 0) 270 (dr * real k)) = - (real k * rad2deg d)"
    using RDP_west[OF k z(3), of 0] g(2) assms(3) by (simp add: z r)
qed

lemma bound_routeL:
  assumes "0 < a"
  shows "PointSet_Bound (routeL a) = \<lparr>sw = (- a, - a), ne = (a, a)\<rparr>"
  using assms by (simp add: routeL_def PointSet_Bound_def Extend_def Lng_def Lat_def)

lemma buildGrid_routeL:
  assumes d: "dr / er = d" "1 / 10 ^ 10 \<le> d" "2 * d < pi / 2"
    and dl: "dl = rad2deg d" and a: "0 < a" "a < dl"
  shows "buildGrid 2 er (NewRouteBoxer dr (routeL a)) =
     Some (Inr \<lparr>distanceRange = dr, vertices = routeL a, latGrid = linesL dl, lngGrid = linesL dl,
        grid = zeroL, boxesX = [], boxesY = []\<rparr>)"
proof -
  have "real 1 * d < pi / 2" "real 2 * d < pi / 2"
    using d(2,3) by auto
  note l1 = RDP_origin[OF d(1,2) this(1), simplified, folded dl]
  note l2 = RDP_origin[OF d(1,2) \<open>real 2 * d < pi / 2\<close>, simplified, folded dl]
  have two: "(2::nat) = Suc (Suc 0)"
    by simp
  show ?thesis
    using a
    by (simp add: buildGrid_def NewRouteBoxer_def bound_routeL Center_def Let_def bindO_def
        NorthEast_def SouthWest_def Lat_def[of "(x, y)" for x y] Lng_def[of "(x, y)" for x y]
        index_def l1 l2 two linesL_def zeroL_def northLoop.simps southLoop.simps eastLoop.simps
        westLoop.simps)
qed

lemma Find_routeL:
  assumes a: "0 < a" "a < dl"
  shows "FindIntersectingCells er \<lparr>distanceRange = dr, vertices = routeL a,
        latGrid = linesL dl, lngGrid = linesL dl,
        grid = zeroL, boxesX = bx, boxesY = by\<rparr>
     = Inr \<lparr>distanceRange = dr, vertices = routeL a, latGrid = linesL dl, lngGrid = linesL dl,
        grid = markedL, boxesX = bx, boxesY = by\<rparr>"
  using a
  by (simp add: FindIntersectingCells_def getCellCoords_def getGridCoordsFromHint_def bindE_def
      index_def markCell_def setCell_def Let_def Lat_def Lng_def numeral_eq_Suc markedL_def zeroL_def
      routeL_def linesL_def scanFrom0.simps scanBackward.simps scanForward.simps)

lemmas merge_eval = mergeIntersectingCells_def bindE_def index_def gridAt_def getCellBounds_def
      NewBoundFromPoints_def NewPointFromLatLng_def Extend_def growBox_def mergeBoxesX_def
      mergeBoxesY_def matchX_def matchY_def NorthEast_def SouthWest_def Let_def Lat_def Lng_def
      rowCells.simps rowScan.simps colCells.simps colScan.simps

lemma merge_routeL_small:
  assumes a: "0 < dl" "dl < 1 / 1000"
  shows "mergeIntersectingCells \<lparr>distanceRange = dr, vertices = vs,
        latGrid = linesL dl, lngGrid = linesL dl, grid = markedL, boxesX = [], boxesY = []\<rparr>
     = Inr \<lparr>distanceRange = dr, vertices = vs, latGrid = linesL dl, lngGrid = linesL dl,
        grid = markedL, boxesX = [\<lparr>sw = (- (2 * dl), - (2 * dl)), ne = (2 * dl, 2 * dl)\<rparr>],
        boxesY = [\<lparr>sw = (- (2 * dl), - (2 * dl)), ne = (2 * dl, 2 * dl)\<rparr>]\<rparr>"
  using a by (simp add: merge_eval markedL_def linesL_def)

lemma merge_routeL_large:
  assumes a: "1 / 1000 \<le> dl"
  shows "mergeIntersectingCells \<lparr>distanceRange = dr, vertices = vs,
        latGrid = linesL dl, lngGrid = linesL dl, grid = markedL, boxesX = [], boxesY = []\<rparr>
     = Inr \<lparr>distanceRange = dr, vertices = vs, latGrid = linesL dl, lngGrid = linesL dl,
        grid = markedL,
        boxesX = [\<lparr>sw = (- (2 * dl), - (2 * dl)), ne = (dl, 2 * dl)\<rparr>,
                  \<lparr>sw = (dl, - dl), ne = (2 * dl, 2 * dl)\<rparr>],
        boxesY = [\<lparr>sw = (- (2 * dl), - (2 * dl)), ne = (dl, - dl)\<rparr>,
                  \<lparr>sw = (- (2 * dl), - dl), ne = (2 * dl, 2 * dl)\<rparr>]\<rparr>"
  using a by (simp add: merge_eval markedL_def linesL_def)

lemma Boxes_routeL_large:
  assumes d: "dr / er = d" "1 / 10 ^ 10 \<le> d" "2 * d < pi / 2"
    and dl: "dl = rad2deg d" and a: "0 < a" "a < dl" and l: "1 / 1000 \<le> dl"
  shows "Boxes 2 er (NewRouteBoxer dr (routeL a)) =
     Some (Inr (colFirstL dl, \<lparr>distanceRange = dr, vertices = routeL a, latGrid = linesL dl,
        lngGrid = linesL dl, grid = markedL, boxesX = colFirstL dl, boxesY = rowFirstL dl\<rparr>))"
  by (simp add: Boxes_def buildGrid_routeL[OF d dl a] bindO_def bindE_def Find_routeL[OF a]
      merge_routeL_large[OF l] colFirstL_def rowFirstL_def)

lemma Boxes_routeL_small:
  assumes d: "dr / er = d" "1 / 10 ^ 10 \<le> d" "2 * d < pi / 2"
    and dl: "dl = rad2deg d" and a: "0 < a" "a < dl" and l: "dl < 1 / 1000"
  shows "Boxes 2 er (NewRouteBoxer dr (routeL a)) =
     Some (Inr ([\<lparr>sw = (- (2 * dl), - (2 * dl)), ne = (2 * dl, 2 * dl)\<rparr>],
        \<lparr>distanceRange = dr, vertices = routeL a, latGrid = linesL dl,
        lngGrid = linesL dl, grid = markedL,
        boxesX = [\<lparr>sw = (- (2 * dl), - (2 * dl)), ne = (2 * dl, 2 * dl)\<rparr>],
        boxesY = [\<lparr>sw = (- (2 * dl), - (2 * dl)), ne = (2 * dl, 2 * dl)\<rparr>]\<rparr>))"
proof -
  have "0 < dl" using a by simp
  then show ?thesis
  by (simp add: Boxes_def buildGrid_routeL[OF d dl a] bindO_def bindE_def Find_routeL[OF a]
      merge_routeL_small[OF _ l])
qed

lemma range_200km:
  defines "d \<equiv> 200000 / 6378137" and "dl \<equiv> rad2deg (200000 / 6378137)"
  shows "200000 / 6378137 = d" "1 / 10 ^ 10 \<le> d" "2 * d < pi / 2" "dl = rad2deg d"
    "0 < (1::real)" "1 < dl" "1 / 1000 \<le> dl" "real 4 * d < pi / 2"
proof -
  have p: "2 \<le> pi" "pi < 4"
    using pi_ge_two pi_less_4 by auto
  show "200000 / 6378137 = d" "1 / 10 ^ 10 \<le> d" "dl = rad2deg d" "0 < (1::real)"
    by (simp_all add: d_def dl_def)
  show "2 * d < pi / 2" "real 4 * d < pi / 2"
    using p(1) by (simp_all add: d_def)
  show "1 < dl" "1 / 1000 \<le> dl"
    using p by (simp_all add: dl_def rad2deg_def field_simps)
qed

lemma range_50:
  defines "d \<equiv> 50 / 6378137" and "dl \<equiv> rad2deg (50 / 6378137)"
  shows "50 / 6378137 = d" "1 / 10 ^ 10 \<le> d" "2 * d < pi / 2" "dl = rad2deg d"
    "0 < (1 / 10000 ::real)" "1 / 10000 < dl" "dl < 1 / 1000"
proof -
  have p: "2 \<le> pi" "pi < 4"
    using pi_ge_two pi_less_4 by auto
  show "50 / 6378137 = d" "1 / 10 ^ 10 \<le> d" "dl = rad2deg d" "0 < (1 / 10000 ::real)"
    by (simp_all add: d_def dl_def)
  show "2 * d < pi / 2"
    using p(1) by (simp_all add: d_def)
  show "1 / 10000 < dl" "dl < 1 / 1000"
    using p by (simp_all add: dl_def rad2deg_def field_simps)
qed











section \<open>The choice between the two accumulators\<close>

text \<open>
  Claim C7 (\<^verbatim>\<open>Boxes\<close> returns the accumulator with fewer boxes, and on a tie the row-first
  result) fails on the tie: for the L-shaped route with \<open>a = 1\<close> and range \<open>200000\<close> both
  traversals produce two rectangles, different ones, and \<^verbatim>\<open>Boxes\<close> returns \<^verbatim>\<open>boxesX\<close>,
  which the column traversal builds.
\<close>

theorem Boxes_tie_returns_column_first:
  "let dl = rad2deg (200000 / 6378137)
   in Boxes 2 6378137 (NewRouteBoxer 200000 (routeL 1)) =
        Some (Inr (colFirstL dl, \<lparr>distanceRange = 200000, vertices = routeL 1,
          latGrid = linesL dl, lngGrid = linesL dl, grid = markedL,
          boxesX = colFirstL dl, boxesY = rowFirstL dl\<rparr>)) \<and>
      rowScan (linesL dl) (linesL dl) markedL 0 [] = Inr (rowFirstL dl) \<and>
      colScan (linesL dl) (linesL dl) markedL 0 [] = Inr (colFirstL dl) \<and>
      length (colFirstL dl) = length (rowFirstL dl) \<and>
      colFirstL dl \<noteq> rowFirstL dl"
proof -
  note r = range_200km
  have m: "mergeIntersectingCells \<lparr>distanceRange = 200000, vertices = routeL 1,
        latGrid = linesL (rad2deg (200000 / 6378137)), lngGrid = linesL (rad2deg (200000 / 6378137)),
        grid = markedL, boxesX = [], boxesY = []\<rparr>
     = Inr \<lparr>distanceRange = 200000, vertices = routeL 1, latGrid = linesL (rad2deg (200000 / 6378137)),
       lngGrid = linesL (rad2deg (200000 / 6378137)),
        grid = markedL, boxesX = colFirstL (rad2deg (200000 / 6378137)),
        boxesY = rowFirstL (rad2deg (200000 / 6378137))\<rparr>"
    using merge_routeL_large[OF r(7)] by (simp add: colFirstL_def rowFirstL_def)
  have "colFirstL (rad2deg (200000 / 6378137)) \<noteq> rowFirstL (rad2deg (200000 / 6378137))"
    using r(6) by (simp add: colFirstL_def rowFirstL_def)
  then show ?thesis
    using Boxes_routeL_large[OF r(1-7)] mergeIntersectingCells_frame[OF m]
    by (simp add: Let_def colFirstL_def rowFirstL_def)
qed

text \<open>
  Claim C7 as amended: when \<^verbatim>\<open>Boxes\<close> returns, \<^verbatim>\<open>boxesY\<close> is the accumulator of the
  row traversal and \<^verbatim>\<open>boxesX\<close> that of the column traversal; the result is \<^verbatim>\<open>boxesX\<close>
  when it has at most as many boxes as \<^verbatim>\<open>boxesY\<close> (so a tie returns the column-first
  result) and \<^verbatim>\<open>boxesY\<close> when that has strictly fewer.
\<close>

theorem Boxes_returns_smaller_ties_column_first:
  assumes "Boxes fuel er r = Some (Inr (res, r'))"
  shows "rowScan (latGrid r') (lngGrid r') (grid r') 0 (boxesY r) = Inr (boxesY r') \<and>
     colScan (latGrid r') (lngGrid r') (grid r') 0 (boxesX r) = Inr (boxesX r') \<and>
     (length (boxesX r') \<le> length (boxesY r') \<longrightarrow> res = boxesX r') \<and>
     (length (boxesY r') < length (boxesX r') \<longrightarrow> res = boxesY r')"
proof -
  from assms obtain r1 r2 where
    b: "buildGrid fuel er r = Some (Inr r1)" and f: "FindIntersectingCells er r1 = Inr r2"
    and m: "mergeIntersectingCells r2 = Inr r'"
    and res: "res = (if length (boxesX r') \<le> length (boxesY r') then boxesX r' else boxesY r')"
    by (rule Boxes_Inr)
  from FindIntersectingCells_frame[OF f] obtain g' where r2: "r2 = r1\<lparr>grid := g'\<rparr>"
    by blast
  have "boxesX r2 = boxesX r" "boxesY r2 = boxesY r"
    using buildGrid_frame(3,4)[OF b] by (simp_all add: r2)
  moreover from mergeIntersectingCells_frame[OF m] obtain bsX bsY where
    "r' = r2\<lparr>boxesX := bsX, boxesY := bsY\<rparr>"
    "rowScan (latGrid r2) (lngGrid r2) (grid r2) 0 (boxesY r2) = Inr bsY"
    "colScan (latGrid r2) (lngGrid r2) (grid r2) 0 (boxesX r2) = Inr bsX"
    by blast
  ultimately show ?thesis
    using res by auto
qed


theorem Boxes_returns_smaller_ties_column_first_witness:
  "let dl = rad2deg (200000 / 6378137)
   in rowScan (linesL dl) (linesL dl) markedL 0 [] = Inr (rowFirstL dl) \<and>
      colScan (linesL dl) (linesL dl) markedL 0 [] = Inr (colFirstL dl) \<and>
      (length (colFirstL dl) \<le> length (rowFirstL dl) \<longrightarrow> colFirstL dl = colFirstL dl) \<and>
      (length (rowFirstL dl) < length (colFirstL dl) \<longrightarrow> colFirstL dl = rowFirstL dl)"
  using Boxes_returns_smaller_ties_column_first[OF Boxes_routeL_large[OF range_200km(1-7)]]
  by (simp add: NewRouteBoxer_def)

section \<open>The receiver's state across calls\<close>





section \<open>The merge produces an exact tiling on spaced grid lines\<close>

lemma spaced_nth: "spaced G \<Longrightarrow> i < j \<Longrightarrow> j < length G \<Longrightarrow> G ! i + 1 / 1000 \<le> G ! j"
  unfolding spaced_def by (rule sorted_wrt_nth_less)

lemma spaced_near:
  assumes "spaced G" "i < length G" "j < length G" "\<bar>G ! i - G ! j\<bar> < 1 / 1000"
  shows "i = j"
proof (rule ccontr)
  assume "i \<noteq> j"
  then consider "i < j" | "j < i" by linarith
  then show False
  proof cases
    case 1
    then show ?thesis using spaced_nth[OF assms(1) 1 assms(3)] assms(4) by simp
  next
    case 2
    then show ?thesis using spaced_nth[OF assms(1) 2 assms(2)] assms(4) by simp
  qed
qed

lemma spaced_less:
  assumes "spaced G" "i < length G" "j < length G"
  shows "G ! i < G ! j \<longleftrightarrow> i < j"
proof
  assume "i < j"
  then show "G ! i < G ! j" using spaced_nth[OF assms(1) _ assms(3)] by fastforce
next
  assume l: "G ! i < G ! j"
  show "i < j"
  proof (rule ccontr)
    assume "\<not> i < j"
    then consider "i = j" | "j < i" by linarith
    then show False
    proof cases
      case 1 then show ?thesis using l by simp
    next
      case 2 then show ?thesis using spaced_nth[OF assms(1) 2 assms(2)] l by simp
    qed
  qed
qed

lemma spaced_le:
  assumes "spaced G" "i < length G" "j < length G"
  shows "G ! i \<le> G ! j \<longleftrightarrow> i \<le> j"
  using spaced_less[OF assms(1,3,2)] by (auto simp: not_less[symmetric])

lemma spaced_mono: "spaced G \<Longrightarrow> i \<le> j \<Longrightarrow> j < length G \<Longrightarrow> G ! i \<le> G ! j"
  using spaced_le[of G i j] by simp

lemma getCellBounds_boundOf:
  assumes "spaced latG" "spaced lngG" "getCellBounds latG lngG (int x, int y) = Inr box"
  shows "x + 1 < length lngG" "y + 1 < length latG" "box = boundOf latG lngG (x, x + 1, y, y + 1)"
proof -
  from assms(3) show x: "x + 1 < length lngG" and y: "y + 1 < length latG"
    by (auto simp: getCellBounds_def bindE_Inr index_def split: if_splits)
  have "lngG ! x \<le> lngG ! (x + 1)" "latG ! y \<le> latG ! (y + 1)"
    using spaced_mono[OF assms(2) _ x, of x] spaced_mono[OF assms(1) _ y, of y] by simp_all
  then show "box = boundOf latG lngG (x, x + 1, y, y + 1)"
    using assms(3) x y
    by (auto simp: getCellBounds_def bindE_Inr index_def boundOf_def NewBoundFromPoints_def
        NewPointFromLatLng_def Extend_def Lng_def Lat_def nat_add_distrib split: if_splits)
qed

lemma Extend_boundOf:
  assumes "spaced latG" "spaced lngG" "validRect latG lngG (x0, x1, y0, y1)"
    "x1 \<le> x1'" "x1' < length lngG" "y1 \<le> y1'" "y1' < length latG"
  shows "Extend (boundOf latG lngG (x0, x1, y0, y1)) (lngG ! x1', latG ! y1')
    = boundOf latG lngG (x0, x1', y0, y1')"
proof -
  have "lngG ! x0 \<le> lngG ! x1'" "lngG ! x1 \<le> lngG ! x1'"
    using assms(3,4,5) by (auto intro!: spaced_mono[OF assms(2)] simp: validRect_def)
  moreover have "latG ! y0 \<le> latG ! y1'" "latG ! y1 \<le> latG ! y1'"
    using assms(3,6,7) by (auto intro!: spaced_mono[OF assms(1)] simp: validRect_def)
  ultimately show ?thesis
    by (simp add: Extend_def boundOf_def Lng_def Lat_def)
qed

lemma NorthEast_boundOf: "NorthEast (boundOf latG lngG (x0, x1, y0, y1)) = (lngG ! x1, latG ! y1)"
  by (simp add: NorthEast_def boundOf_def)

lemma matchY_boundOf:
  assumes "spaced latG" "spaced lngG"
    "validRect latG lngG (x0, x1, y0, y1)" "validRect latG lngG (a, b, y, y')"
  shows "matchY (boundOf latG lngG (x0, x1, y0, y1)) (boundOf latG lngG (a, b, y, y'))
    \<longleftrightarrow> y1 = y \<and> x0 = a \<and> x1 = b"
proof -
  have l: "x0 < length lngG" "x1 < length lngG" "a < length lngG" "b < length lngG"
    "y1 < length latG" "y < length latG"
    using assms(3,4) by (auto simp: validRect_def)
  show ?thesis
    using spaced_near[OF assms(1) l(5,6)] spaced_near[OF assms(2) l(1,3)]
      spaced_near[OF assms(2) l(2,4)]
    by (auto simp: matchY_def boundOf_def NorthEast_def SouthWest_def Lng_def Lat_def)
qed

lemma matchX_boundOf:
  assumes "spaced latG" "spaced lngG"
    "validRect latG lngG (x0, x1, y0, y1)" "validRect latG lngG (x, x', c, d)"
  shows "matchX (boundOf latG lngG (x0, x1, y0, y1)) (boundOf latG lngG (x, x', c, d))
    \<longleftrightarrow> x1 = x \<and> y0 = c \<and> y1 = d"
proof -
  have l: "x1 < length lngG" "x < length lngG" "y0 < length latG" "c < length latG"
    "y1 < length latG" "d < length latG"
    using assms(3,4) by (auto simp: validRect_def)
  show ?thesis
    using spaced_near[OF assms(2) l(1,2)] spaced_near[OF assms(1) l(3,4)]
      spaced_near[OF assms(1) l(5,6)]
    by (auto simp: matchX_def boundOf_def NorthEast_def SouthWest_def Lng_def Lat_def)
qed

lemma tiledBy_Nil: "tiledBy latG lngG [] {}"
  by (simp add: tiledBy_def)

lemma tiledBy_Cons:
  "tiledBy latG lngG (r # rs) S \<longleftrightarrow>
     validRect latG lngG r \<and> (\<forall>r' \<in> set rs. cellsOf r \<inter> cellsOf r' = {}) \<and>
     (\<exists>T. tiledBy latG lngG rs T \<and> S = cellsOf r \<union> T)"
  by (auto simp: tiledBy_def)

lemma tiledBy_subset: "tiledBy latG lngG rs S \<Longrightarrow> r \<in> set rs \<Longrightarrow> cellsOf r \<subseteq> S"
  by (auto simp: tiledBy_def)

lemma mergeIntoY_tiled:
  assumes sp: "spaced latG" "spaced lngG"
    and new: "validRect latG lngG (a, b, y, y + 1)" "cellsOf (a, b, y, y + 1) \<inter> S = {}"
    and t: "tiledBy latG lngG rs S"
  shows "\<exists>rs'. mergeIntoY (boundOf latG lngG (a, b, y, y + 1)) (map (boundOf latG lngG) rs)
      = map (boundOf latG lngG) rs' \<and> tiledBy latG lngG rs' (S \<union> cellsOf (a, b, y, y + 1))"
  using t new(2)
proof (induction rs arbitrary: S)
  case Nil
  then have "tiledBy latG lngG [(a, b, y, y + 1)] (S \<union> cellsOf (a, b, y, y + 1))"
    using new(1) by (auto simp: tiledBy_def)
  then show ?case
    by (intro exI[of _ "[(a, b, y, y + 1)]"]) simp
next
  case (Cons r rs)
  obtain x0 x1 y0 y1 where r: "r = (x0, x1, y0, y1)"
    by (cases r) auto
  from Cons.prems(1) obtain T where
    v: "validRect latG lngG r" and dj: "\<forall>r' \<in> set rs. cellsOf r \<inter> cellsOf r' = {}"
    and T: "tiledBy latG lngG rs T" and S: "S = cellsOf r \<union> T"
    by (auto simp: tiledBy_Cons)
  show ?case
  proof (cases "matchY (boundOf latG lngG r) (boundOf latG lngG (a, b, y, y + 1))")
    case True
    then have eq: "y1 = y" "x0 = a" "x1 = b"
      using matchY_boundOf[OF sp v[unfolded r] new(1)] by (simp_all add: r)
    let ?r' = "(a, b, y0, y + 1)"
    have ext: "Extend (boundOf latG lngG r) (NorthEast (boundOf latG lngG (a, b, y, y + 1)))
        = boundOf latG lngG ?r'"
      using Extend_boundOf[OF sp v[unfolded r], of b "y + 1"] new(1)
      by (simp add: NorthEast_boundOf r eq validRect_def)
    have c: "cellsOf ?r' = cellsOf r \<union> cellsOf (a, b, y, y + 1)"
      using v by (auto simp: cellsOf_def r eq validRect_def)
    have "\<forall>r' \<in> set rs. cellsOf ?r' \<inter> cellsOf r' = {}"
    proof
      fix r' assume r': "r' \<in> set rs"
      then have "cellsOf r' \<subseteq> T"
        by (rule tiledBy_subset[OF T])
      then have "cellsOf r' \<subseteq> S"
        using S by blast
      then show "cellsOf ?r' \<inter> cellsOf r' = {}"
        using dj r' Cons.prems(2) unfolding c by blast
    qed
    moreover have "validRect latG lngG ?r'"
      using v new(1) by (auto simp: validRect_def r eq)
    ultimately have "tiledBy latG lngG (?r' # rs) (S \<union> cellsOf (a, b, y, y + 1))"
      using T S c by (auto simp: tiledBy_Cons)
    then show ?thesis
      using True ext by (intro exI[of _ "?r' # rs"]) simp
  next
    case False
    have "cellsOf (a, b, y, y + 1) \<inter> T = {}"
      using Cons.prems(2) S by auto
    from Cons.IH[OF T this] obtain rs' where
      m: "mergeIntoY (boundOf latG lngG (a, b, y, y + 1)) (map (boundOf latG lngG) rs)
          = map (boundOf latG lngG) rs'"
      and t': "tiledBy latG lngG rs' (T \<union> cellsOf (a, b, y, y + 1))"
      by blast
    have "\<forall>r' \<in> set rs'. cellsOf r \<inter> cellsOf r' = {}"
    proof
      fix r' assume "r' \<in> set rs'"
      then have "cellsOf r' \<subseteq> T \<union> cellsOf (a, b, y, y + 1)"
        by (rule tiledBy_subset[OF t'])
      moreover have "cellsOf r \<inter> T = {}"
        using dj T by (auto simp: tiledBy_def)
      ultimately show "cellsOf r \<inter> cellsOf r' = {}"
        using Cons.prems(2) S by blast
    qed
    then have "tiledBy latG lngG (r # rs') (S \<union> cellsOf (a, b, y, y + 1))"
      using v t' S by (auto simp: tiledBy_Cons)
    then show ?thesis
      using False m by (intro exI[of _ "r # rs'"]) simp
  qed
qed

lemma gridAt_Inr: "gridAt g x y = Inr c \<longleftrightarrow> x < length g \<and> y < length (g ! x) \<and> c = g ! x ! y"
  by (auto simp: gridAt_def bindE_Inr index_def)

lemma rowDone_run:
  assumes "a \<le> x" "\<forall>x'. a \<le> x' \<and> x' < x \<longrightarrow> (x', y) \<in> markedCells g"
  shows "rowDone g y a \<union> cellsOf (a, x, y, y + 1) = rowDone g y x"
    and "cellsOf (a, x, y, y + 1) \<inter> rowDone g y a = {}"
proof -
  have "y' = y" if "y \<le> y'" "y' < y + 1" for y'
    using that by simp
  then show "rowDone g y a \<union> cellsOf (a, x, y, y + 1) = rowDone g y x"
    "cellsOf (a, x, y, y + 1) \<inter> rowDone g y a = {}"
    using assms by (fastforce simp: rowDone_def cellsOf_def)+
qed

lemma rowDone_skip: "(x, y) \<notin> markedCells g \<Longrightarrow> rowDone g y (Suc x) = rowDone g y x"
  by (auto simp: rowDone_def less_Suc_eq)

lemma rowInv_mark:
  assumes sp: "spaced latG" "spaced lngG"
    and inv: "rowInv latG lngG g y x cur bs"
    and c: "gridAt g x y = Inr 1" and b: "getCellBounds latG lngG (int x, int y) = Inr box"
  shows "rowInv latG lngG g y (x + 1) (growBox cur box) bs"
proof -
  from inv obtain rs a where
    i: "bs = map (boundOf latG lngG) rs" "tiledBy latG lngG rs (rowDone g y a)" "a \<le> x"
      "\<forall>x'. a \<le> x' \<and> x' < x \<longrightarrow> (x', y) \<in> markedCells g"
    and cur: "if a = x then cur = None
         else cur = Some (boundOf latG lngG (a, x, y, y + 1)) \<and> validRect latG lngG (a, x, y, y + 1)"
    unfolding rowInv_def by blast
  note cb = getCellBounds_boundOf[OF sp b]
  have m: "(x, y) \<in> markedCells g"
    using c by (simp add: gridAt_Inr markedCells_def)
  have v: "validRect latG lngG (a, x + 1, y, y + 1)"
    using cb(1,2) i(3) by (simp add: validRect_def)
  have "growBox cur box = Some (boundOf latG lngG (a, x + 1, y, y + 1))"
  proof (cases "a = x")
    case True
    then show ?thesis using cur cb(3) by (simp add: growBox_def)
  next
    case False
    then have "cur = Some (boundOf latG lngG (a, x, y, y + 1))" "validRect latG lngG (a, x, y, y + 1)"
      using cur by simp_all
    then show ?thesis
      using Extend_boundOf[OF sp, of a x y "y + 1" "x + 1" "y + 1"] cb
      by (simp add: growBox_def NorthEast_boundOf)
  qed
  moreover have "\<forall>x'. a \<le> x' \<and> x' < x + 1 \<longrightarrow> (x', y) \<in> markedCells g"
    using i(4) m by (auto simp: less_Suc_eq)
  ultimately show ?thesis
    unfolding rowInv_def using i(1,2,3) v
    by (intro exI[of _ rs] exI[of _ a]) auto
qed

lemma mergeBoxesY_tiled:
  assumes sp: "spaced latG" "spaced lngG"
    and inv: "rowInv latG lngG g y x cur bs"
  shows "\<exists>rs. mergeBoxesY cur bs = map (boundOf latG lngG) rs \<and> tiledBy latG lngG rs (rowDone g y x)"
proof -
  from inv obtain rs a where
    i: "bs = map (boundOf latG lngG) rs" "tiledBy latG lngG rs (rowDone g y a)" "a \<le> x"
      "\<forall>x'. a \<le> x' \<and> x' < x \<longrightarrow> (x', y) \<in> markedCells g"
    and cur: "if a = x then cur = None
         else cur = Some (boundOf latG lngG (a, x, y, y + 1)) \<and> validRect latG lngG (a, x, y, y + 1)"
    unfolding rowInv_def by blast
  show ?thesis
  proof (cases "a = x")
    case True
    then show ?thesis
      using cur i(1,2) by (auto simp: mergeBoxesY_def)
  next
    case False
    then have c: "cur = Some (boundOf latG lngG (a, x, y, y + 1))"
      and v: "validRect latG lngG (a, x, y, y + 1)"
      using cur by simp_all
    from mergeIntoY_tiled[OF sp v rowDone_run(2)[OF i(3,4)] i(2)]
    show ?thesis
      unfolding rowDone_run(1)[OF i(3,4)] by (simp add: c mergeBoxesY_def i(1))
  qed
qed

lemma rowInv_skip:
  assumes sp: "spaced latG" "spaced lngG"
    and inv: "rowInv latG lngG g y x cur bs"
    and c: "gridAt g x y = Inr c" "c \<noteq> 1"
  shows "rowInv latG lngG g y (x + 1) None (mergeBoxesY cur bs)"
proof -
  from mergeBoxesY_tiled[OF sp inv] obtain rs where
    "mergeBoxesY cur bs = map (boundOf latG lngG) rs" "tiledBy latG lngG rs (rowDone g y x)"
    by blast
  moreover have "(x, y) \<notin> markedCells g"
    using c by (auto simp: gridAt_Inr markedCells_def)
  ultimately show ?thesis
    unfolding rowInv_def
    by (intro exI[of _ rs] exI[of _ "x + 1"]) (auto simp: rowDone_skip)
qed

lemma rowCells_inv:
  assumes sp: "spaced latG" "spaced lngG"
  shows "rowCells latG lngG g y x cur bs = Inr (cur', bs') \<Longrightarrow> x \<le> length g \<Longrightarrow>
    rowInv latG lngG g y x cur bs \<Longrightarrow> rowInv latG lngG g y (length g) cur' bs'"
proof (induction "length g - x" arbitrary: x cur bs)
  case 0
  then show ?case
    by (subst (asm) rowCells.simps) simp
next
  case (Suc n)
  then have x: "x < length g" "n = length g - (x + 1)" "x + 1 \<le> length g"
    by auto
  from Suc.prems(1) x(1) consider
    (mark) box where "gridAt g x y = Inr 1" "getCellBounds latG lngG (int x, int y) = Inr box"
      "rowCells latG lngG g y (x + 1) (growBox cur box) bs = Inr (cur', bs')"
    | (skip) c where "gridAt g x y = Inr c" "c \<noteq> 1"
      "rowCells latG lngG g y (x + 1) None (mergeBoxesY cur bs) = Inr (cur', bs')"
    by (subst (asm) rowCells.simps) (auto simp: bindE_Inr split: if_splits)
  then show ?case
  proof cases
    case mark
    show ?thesis
      using Suc.hyps(1)[OF x(2) mark(3) x(3)] rowInv_mark[OF sp Suc.prems(3) mark(1,2)] .
  next
    case skip
    show ?thesis
      using Suc.hyps(1)[OF x(2) skip(3) x(3)] rowInv_skip[OF sp Suc.prems(3) skip(1,2)] .
  qed
qed

lemma rowDone_next:
  assumes "\<forall>col \<in> set g. length col = m"
  shows "rowDone g y (length g) = rowDone g (y + 1) 0"
  by (auto simp: rowDone_def markedCells_def less_Suc_eq)

lemma rowScan_tiled:
  assumes sp: "spaced latG" "spaced lngG" and dims: "\<forall>col \<in> set g. length col = m"
  shows "rowScan latG lngG g y bs = Inr bs' \<Longrightarrow>
    \<exists>rs. bs = map (boundOf latG lngG) rs \<and> tiledBy latG lngG rs (rowDone g y 0) \<Longrightarrow>
    \<exists>rs. bs' = map (boundOf latG lngG) rs \<and> tiledBy latG lngG rs (markedCells g)"
proof (induction "length (g ! 0) - y" arbitrary: y bs)
  case 0
  then have "g \<noteq> []" "length (g ! 0) \<le> y" "bs' = bs"
    by (subst (asm) rowScan.simps; auto simp: index_def split: sum.splits if_splits)+
  moreover have "rowDone g y 0 = markedCells g"
    using dims calculation(1,2) by (auto simp: rowDone_def markedCells_def)
  ultimately show ?case
    using "0.prems"(2) by simp
next
  case (Suc n)
  then have y: "n = length (g ! 0) - (y + 1)"
    by auto
  from Suc.prems(1) Suc.hyps(2) obtain cur bs1 where
    c: "rowCells latG lngG g y 0 None bs = Inr (cur, bs1)"
    and r: "rowScan latG lngG g (y + 1) (mergeBoxesY cur bs1) = Inr bs'"
    by (subst (asm) rowScan.simps) (auto simp: index_def bindE_Inr split: sum.splits if_splits)
  have "rowInv latG lngG g y 0 None bs"
    using Suc.prems(2) unfolding rowInv_def by auto
  from rowCells_inv[OF sp c _ this] have "rowInv latG lngG g y (length g) cur bs1"
    by simp
  from mergeBoxesY_tiled[OF sp this]
  have "\<exists>rs. mergeBoxesY cur bs1 = map (boundOf latG lngG) rs
      \<and> tiledBy latG lngG rs (rowDone g (y + 1) 0)"
    unfolding rowDone_next[OF dims] .
  from Suc.hyps(1)[OF y r this] show ?case .
qed

lemma mergeIntoX_tiled:
  assumes sp: "spaced latG" "spaced lngG"
    and new: "validRect latG lngG (x, x + 1, c, d)" "cellsOf (x, x + 1, c, d) \<inter> S = {}"
    and t: "tiledBy latG lngG rs S"
  shows "\<exists>rs'. mergeIntoX (boundOf latG lngG (x, x + 1, c, d)) (map (boundOf latG lngG) rs)
      = map (boundOf latG lngG) rs' \<and> tiledBy latG lngG rs' (S \<union> cellsOf (x, x + 1, c, d))"
  using t new(2)
proof (induction rs arbitrary: S)
  case Nil
  then have "tiledBy latG lngG [(x, x + 1, c, d)] (S \<union> cellsOf (x, x + 1, c, d))"
    using new(1) by (auto simp: tiledBy_def)
  then show ?case
    by (intro exI[of _ "[(x, x + 1, c, d)]"]) simp
next
  case (Cons r rs)
  obtain x0 x1 y0 y1 where r: "r = (x0, x1, y0, y1)"
    by (cases r) auto
  from Cons.prems(1) obtain T where
    v: "validRect latG lngG r" and dj: "\<forall>r' \<in> set rs. cellsOf r \<inter> cellsOf r' = {}"
    and T: "tiledBy latG lngG rs T" and S: "S = cellsOf r \<union> T"
    by (auto simp: tiledBy_Cons)
  show ?case
  proof (cases "matchX (boundOf latG lngG r) (boundOf latG lngG (x, x + 1, c, d))")
    case True
    then have eq: "x1 = x" "y0 = c" "y1 = d"
      using matchX_boundOf[OF sp v[unfolded r] new(1)] by (simp_all add: r)
    let ?r' = "(x0, x + 1, c, d)"
    have ext: "Extend (boundOf latG lngG r) (NorthEast (boundOf latG lngG (x, x + 1, c, d)))
        = boundOf latG lngG ?r'"
      using Extend_boundOf[OF sp v[unfolded r], of "x + 1" d] new(1)
      by (simp add: NorthEast_boundOf r eq validRect_def)
    have c: "cellsOf ?r' = cellsOf r \<union> cellsOf (x, x + 1, c, d)"
      using v by (auto simp: cellsOf_def r eq validRect_def)
    have "\<forall>r' \<in> set rs. cellsOf ?r' \<inter> cellsOf r' = {}"
    proof
      fix r' assume r': "r' \<in> set rs"
      then have "cellsOf r' \<subseteq> T"
        by (rule tiledBy_subset[OF T])
      then have "cellsOf r' \<subseteq> S"
        using S by blast
      then show "cellsOf ?r' \<inter> cellsOf r' = {}"
        using dj r' Cons.prems(2) unfolding c by blast
    qed
    moreover have "validRect latG lngG ?r'"
      using v new(1) by (auto simp: validRect_def r eq)
    ultimately have "tiledBy latG lngG (?r' # rs) (S \<union> cellsOf (x, x + 1, c, d))"
      using T S c by (auto simp: tiledBy_Cons)
    then show ?thesis
      using True ext by (intro exI[of _ "?r' # rs"]) simp
  next
    case False
    have "cellsOf (x, x + 1, c, d) \<inter> T = {}"
      using Cons.prems(2) S by auto
    from Cons.IH[OF T this] obtain rs' where
      m: "mergeIntoX (boundOf latG lngG (x, x + 1, c, d)) (map (boundOf latG lngG) rs)
          = map (boundOf latG lngG) rs'"
      and t': "tiledBy latG lngG rs' (T \<union> cellsOf (x, x + 1, c, d))"
      by blast
    have "\<forall>r' \<in> set rs'. cellsOf r \<inter> cellsOf r' = {}"
    proof
      fix r' assume "r' \<in> set rs'"
      then have "cellsOf r' \<subseteq> T \<union> cellsOf (x, x + 1, c, d)"
        by (rule tiledBy_subset[OF t'])
      moreover have "cellsOf r \<inter> T = {}"
        using dj T by (auto simp: tiledBy_def)
      ultimately show "cellsOf r \<inter> cellsOf r' = {}"
        using Cons.prems(2) S by blast
    qed
    then have "tiledBy latG lngG (r # rs') (S \<union> cellsOf (x, x + 1, c, d))"
      using v t' S by (auto simp: tiledBy_Cons)
    then show ?thesis
      using False m by (intro exI[of _ "r # rs'"]) simp
  qed
qed

lemma colDone_run:
  assumes "b \<le> y" "\<forall>y'. b \<le> y' \<and> y' < y \<longrightarrow> (x, y') \<in> markedCells g"
  shows "colDone g x b \<union> cellsOf (x, x + 1, b, y) = colDone g x y"
    and "cellsOf (x, x + 1, b, y) \<inter> colDone g x b = {}"
proof -
  have "x' = x" if "x \<le> x'" "x' < x + 1" for x'
    using that by simp
  then show "colDone g x b \<union> cellsOf (x, x + 1, b, y) = colDone g x y"
    "cellsOf (x, x + 1, b, y) \<inter> colDone g x b = {}"
    using assms by (fastforce simp: colDone_def cellsOf_def)+
qed

lemma colDone_skip: "(x, y) \<notin> markedCells g \<Longrightarrow> colDone g x (Suc y) = colDone g x y"
  by (auto simp: colDone_def less_Suc_eq)

lemma colInv_mark:
  assumes sp: "spaced latG" "spaced lngG"
    and inv: "colInv latG lngG g x y cur bs"
    and c: "gridAt g x y = Inr 1" and b: "getCellBounds latG lngG (int x, int y) = Inr box"
  shows "colInv latG lngG g x (y + 1) (growBox cur box) bs"
proof -
  from inv obtain rs b where
    i: "bs = map (boundOf latG lngG) rs" "tiledBy latG lngG rs (colDone g x b)" "b \<le> y"
      "\<forall>y'. b \<le> y' \<and> y' < y \<longrightarrow> (x, y') \<in> markedCells g"
    and cur: "if b = y then cur = None
         else cur = Some (boundOf latG lngG (x, x + 1, b, y)) \<and> validRect latG lngG (x, x + 1, b, y)"
    unfolding colInv_def by blast
  note cb = getCellBounds_boundOf[OF sp \<open>getCellBounds latG lngG (int x, int y) = Inr box\<close>]
  have m: "(x, y) \<in> markedCells g"
    using c by (simp add: gridAt_Inr markedCells_def)
  have v: "validRect latG lngG (x, x + 1, b, y + 1)"
    using cb(1,2) i(3) by (simp add: validRect_def)
  have "growBox cur box = Some (boundOf latG lngG (x, x + 1, b, y + 1))"
  proof (cases "b = y")
    case True
    then show ?thesis using cur cb(3) by (simp add: growBox_def)
  next
    case False
    then have "cur = Some (boundOf latG lngG (x, x + 1, b, y))" "validRect latG lngG (x, x + 1, b, y)"
      using cur by simp_all
    then show ?thesis
      using Extend_boundOf[OF sp, of x "x + 1" b y "x + 1" "y + 1"] cb
      by (simp add: growBox_def NorthEast_boundOf)
  qed
  moreover have "\<forall>y'. b \<le> y' \<and> y' < y + 1 \<longrightarrow> (x, y') \<in> markedCells g"
    using i(4) m by (auto simp: less_Suc_eq)
  ultimately show ?thesis
    unfolding colInv_def using i(1,2,3) v
    by (intro exI[of _ rs] exI[of _ b]) auto
qed

lemma mergeBoxesX_tiled:
  assumes sp: "spaced latG" "spaced lngG"
    and inv: "colInv latG lngG g x y cur bs"
  shows "\<exists>rs. mergeBoxesX cur bs = map (boundOf latG lngG) rs \<and> tiledBy latG lngG rs (colDone g x y)"
proof -
  from inv obtain rs b where
    i: "bs = map (boundOf latG lngG) rs" "tiledBy latG lngG rs (colDone g x b)" "b \<le> y"
      "\<forall>y'. b \<le> y' \<and> y' < y \<longrightarrow> (x, y') \<in> markedCells g"
    and cur: "if b = y then cur = None
         else cur = Some (boundOf latG lngG (x, x + 1, b, y)) \<and> validRect latG lngG (x, x + 1, b, y)"
    unfolding colInv_def by blast
  show ?thesis
  proof (cases "b = y")
    case True
    then show ?thesis
      using cur i(1,2) by (auto simp: mergeBoxesX_def)
  next
    case False
    then have c: "cur = Some (boundOf latG lngG (x, x + 1, b, y))"
      and v: "validRect latG lngG (x, x + 1, b, y)"
      using cur by simp_all
    from mergeIntoX_tiled[OF sp v colDone_run(2)[OF i(3,4)] i(2)]
    show ?thesis
      unfolding colDone_run(1)[OF i(3,4)] by (simp add: c mergeBoxesX_def i(1))
  qed
qed

lemma colInv_skip:
  assumes sp: "spaced latG" "spaced lngG"
    and inv: "colInv latG lngG g x y cur bs"
    and c: "gridAt g x y = Inr c" "c \<noteq> 1"
  shows "colInv latG lngG g x (y + 1) None (mergeBoxesX cur bs)"
proof -
  from mergeBoxesX_tiled[OF sp inv] obtain rs where
    "mergeBoxesX cur bs = map (boundOf latG lngG) rs" "tiledBy latG lngG rs (colDone g x y)"
    by blast
  moreover have "(x, y) \<notin> markedCells g"
    using c by (auto simp: gridAt_Inr markedCells_def)
  ultimately show ?thesis
    unfolding colInv_def
    by (intro exI[of _ rs] exI[of _ "y + 1"]) (auto simp: colDone_skip)
qed

lemma colCells_inv:
  assumes sp: "spaced latG" "spaced lngG"
  shows "colCells latG lngG g x y cur bs = Inr (cur', bs') \<Longrightarrow> y \<le> length (g ! 0) \<Longrightarrow>
    colInv latG lngG g x y cur bs \<Longrightarrow> colInv latG lngG g x (length (g ! 0)) cur' bs'"
proof (induction "length (g ! 0) - y" arbitrary: y cur bs)
  case 0
  then show ?case
    by (subst (asm) colCells.simps) (auto simp: index_def split: sum.splits if_splits)
next
  case (Suc n)
  then have y: "y < length (g ! 0)" "n = length (g ! 0) - (y + 1)" "y + 1 \<le> length (g ! 0)"
    by auto
  from Suc.prems(1) y(1) consider
    (mark) box where "gridAt g x y = Inr 1" "getCellBounds latG lngG (int x, int y) = Inr box"
      "colCells latG lngG g x (y + 1) (growBox cur box) bs = Inr (cur', bs')"
    | (skip) c where "gridAt g x y = Inr c" "c \<noteq> 1"
      "colCells latG lngG g x (y + 1) None (mergeBoxesX cur bs) = Inr (cur', bs')"
    by (subst (asm) colCells.simps)
      (auto simp: index_def bindE_Inr split: sum.splits if_splits)
  then show ?case
  proof cases
    case mark
    show ?thesis
      using Suc.hyps(1)[OF y(2) mark(3) y(3)] colInv_mark[OF sp Suc.prems(3) mark(1,2)] .
  next
    case skip
    show ?thesis
      using Suc.hyps(1)[OF y(2) skip(3) y(3)] colInv_skip[OF sp Suc.prems(3) skip(1,2)] .
  qed
qed

lemma colDone_next:
  assumes "\<forall>col \<in> set g. length col = length (g ! 0)"
  shows "colDone g x (length (g ! 0)) = colDone g (x + 1) 0"
  using assms by (auto simp: colDone_def markedCells_def less_Suc_eq)

lemma colScan_tiled:
  assumes sp: "spaced latG" "spaced lngG" and dims: "\<forall>col \<in> set g. length col = length (g ! 0)"
  shows "colScan latG lngG g x bs = Inr bs' \<Longrightarrow>
    \<exists>rs. bs = map (boundOf latG lngG) rs \<and> tiledBy latG lngG rs (colDone g x 0) \<Longrightarrow>
    \<exists>rs. bs' = map (boundOf latG lngG) rs \<and> tiledBy latG lngG rs (markedCells g)"
proof (induction "length g - x" arbitrary: x bs)
  case 0
  then have "length g \<le> x" "bs' = bs"
    by (subst (asm) colScan.simps; simp)+
  moreover have "colDone g x 0 = markedCells g"
    using calculation(1) by (auto simp: colDone_def markedCells_def)
  ultimately show ?case
    using "0.prems"(2) by simp
next
  case (Suc n)
  then have x: "x < length g" "n = length g - (x + 1)"
    by auto
  from Suc.prems(1) x(1) obtain cur bs1 where
    c: "colCells latG lngG g x 0 None bs = Inr (cur, bs1)"
    and r: "colScan latG lngG g (x + 1) (mergeBoxesX cur bs1) = Inr bs'"
    by (subst (asm) colScan.simps) (auto simp: bindE_Inr split: if_splits)
  have "colInv latG lngG g x 0 None bs"
    using Suc.prems(2) unfolding colInv_def by auto
  from colCells_inv[OF sp c _ this] have "colInv latG lngG g x (length (g ! 0)) cur bs1"
    by simp
  from mergeBoxesX_tiled[OF sp this]
  have "\<exists>rs. mergeBoxesX cur bs1 = map (boundOf latG lngG) rs
      \<and> tiledBy latG lngG rs (colDone g (x + 1) 0)"
    unfolding colDone_next[OF dims] .
  from Suc.hyps(1)[OF x(2) r this] show ?case .
qed

lemma coversCell_boundOf:
  assumes sp: "spaced latG" "spaced lngG" and v: "validRect latG lngG r"
    and x: "x + 1 < length lngG" and y: "y + 1 < length latG"
  shows "coversCell latG lngG (boundOf latG lngG r) x y \<longleftrightarrow> (x, y) \<in> cellsOf r"
proof -
  obtain x0 x1 y0 y1 where r: "r = (x0, x1, y0, y1)"
    by (cases r) auto
  have l: "x0 < length lngG" "x1 < length lngG" "y0 < length latG" "y1 < length latG"
    "x < length lngG" "y < length latG"
    using v x y by (auto simp: validRect_def r)
  show ?thesis
    using spaced_le[OF sp(2) l(1,5)] spaced_le[OF sp(2) x l(2)]
      spaced_le[OF sp(1) l(3,6)] spaced_le[OF sp(1) y l(4)]
    by (auto simp: coversCell_def boundOf_def r cellsOf_def SouthWest_def NorthEast_def
        Lng_def Lat_def)
qed

lemma overlap_boundOf:
  assumes sp: "spaced latG" "spaced lngG" and v: "validRect latG lngG r" "validRect latG lngG r'"
    and o: "overlap (boundOf latG lngG r) (boundOf latG lngG r')"
  shows "cellsOf r \<inter> cellsOf r' \<noteq> {}"
proof -
  obtain x0 x1 y0 y1 where r: "r = (x0, x1, y0, y1)"
    by (cases r) auto
  obtain a0 a1 b0 b1 where r': "r' = (a0, a1, b0, b1)"
    by (cases r') auto
  have l: "x0 < length lngG" "x1 < length lngG" "y0 < length latG" "y1 < length latG"
    "a0 < length lngG" "a1 < length lngG" "b0 < length latG" "b1 < length latG"
    "x0 < x1" "y0 < y1" "a0 < a1" "b0 < b1"
    using v by (auto simp: validRect_def r r')
  from o have "lngG ! x0 < lngG ! a1" "lngG ! a0 < lngG ! x1"
    "latG ! y0 < latG ! b1" "latG ! b0 < latG ! y1"
    by (auto simp: overlap_def boundOf_def r r' SouthWest_def NorthEast_def Lng_def Lat_def)
  then have "x0 < a1" "a0 < x1" "y0 < b1" "b0 < y1"
    using spaced_less[OF sp(2) l(1,6)] spaced_less[OF sp(2) l(5,2)]
      spaced_less[OF sp(1) l(3,8)] spaced_less[OF sp(1) l(7,4)] by simp_all
  then have "(max x0 a0, max y0 b0) \<in> cellsOf r \<inter> cellsOf r'"
    using l(9-12) by (auto simp: cellsOf_def r r')
  then show ?thesis
    by blast
qed

lemma count_disjoint:
  assumes "sorted_wrt (\<lambda>r r'. cellsOf r \<inter> cellsOf r' = {}) rs"
  shows "length (filter (\<lambda>r. c \<in> cellsOf r) rs) = (if c \<in> (\<Union>r \<in> set rs. cellsOf r) then 1 else 0)"
  using assms
proof (induction rs)
  case Nil
  then show ?case by simp
next
  case (Cons r rs)
  then have ih: "length (filter (\<lambda>r. c \<in> cellsOf r) rs)
      = (if c \<in> (\<Union>r \<in> set rs. cellsOf r) then 1 else 0)"
    and dj: "\<forall>r' \<in> set rs. cellsOf r \<inter> cellsOf r' = {}"
    by simp_all
  show ?case
  proof (cases "c \<in> cellsOf r")
    case True
    then have "c \<notin> (\<Union>r \<in> set rs. cellsOf r)"
      using dj by blast
    then show ?thesis
      using True ih by simp
  next
    case False
    then show ?thesis
      using ih by simp
  qed
qed

lemma line_between:
  fixes G :: "real list"
  shows "a < b \<Longrightarrow> G ! a \<le> v \<Longrightarrow> v \<le> G ! b \<Longrightarrow> \<exists>x. a \<le> x \<and> x < b \<and> G ! x \<le> v \<and> v \<le> G ! (x + 1)"
proof (induction "b - a" arbitrary: a)
  case 0
  then show ?case by simp
next
  case (Suc n)
  show ?case
  proof (cases "v \<le> G ! (a + 1)")
    case True
    then show ?thesis
      using Suc.prems by (intro exI[of _ a]) simp
  next
    case False
    then have "a + 1 < b"
      using Suc.prems by (cases "a + 1 = b") auto
    moreover have "n = b - (a + 1)"
      using Suc.hyps(2) by simp
    moreover have "G ! (a + 1) \<le> v"
      using False by simp
    ultimately obtain x where "a + 1 \<le> x" "x < b" "G ! x \<le> v" "v \<le> G ! (x + 1)"
      using Suc.hyps(1)[of "a + 1"] Suc.prems(3) by blast
    then show ?thesis
      by (intro exI[of _ x]) simp
  qed
qed

lemma rectPoints_boundOf:
  assumes sp: "spaced latG" "spaced lngG" and v: "validRect latG lngG r"
  shows "rectPoints (boundOf latG lngG r)
    = (\<Union>(x, y) \<in> cellsOf r. rectPoints (cellBound latG lngG x y))"
proof -
  obtain x0 x1 y0 y1 where r: "r = (x0, x1, y0, y1)"
    by (cases r) auto
  have l: "x0 < x1" "x1 < length lngG" "y0 < y1" "y1 < length latG"
    using v by (auto simp: validRect_def r)
  show ?thesis
  proof (intro set_eqI iffI)
    fix p assume "p \<in> rectPoints (boundOf latG lngG r)"
    then have p: "lngG ! x0 \<le> Lng p" "Lng p \<le> lngG ! x1" "latG ! y0 \<le> Lat p" "Lat p \<le> latG ! y1"
      by (simp_all add: rectPoints_def boundOf_def r SouthWest_def NorthEast_def Lng_def Lat_def)
    from line_between[OF l(1) p(1,2)] obtain x where
      x: "x0 \<le> x" "x < x1" "lngG ! x \<le> Lng p" "Lng p \<le> lngG ! (x + 1)"
      by blast
    from line_between[OF l(3) p(3,4)] obtain y where
      y: "y0 \<le> y" "y < y1" "latG ! y \<le> Lat p" "Lat p \<le> latG ! (y + 1)"
      by blast
    have "(x, y) \<in> cellsOf r" "p \<in> rectPoints (cellBound latG lngG x y)"
      using x y
      by (simp_all add: cellsOf_def r rectPoints_def cellBound_def SouthWest_def NorthEast_def
          Lng_def[of "(u, w)" for u w] Lat_def[of "(u, w)" for u w])
    then show "p \<in> (\<Union>(x, y) \<in> cellsOf r. rectPoints (cellBound latG lngG x y))"
      by blast
  next
    fix p assume "p \<in> (\<Union>(x, y) \<in> cellsOf r. rectPoints (cellBound latG lngG x y))"
    then obtain x y where c: "(x, y) \<in> cellsOf r" and p: "p \<in> rectPoints (cellBound latG lngG x y)"
      by blast
    from c have i: "x0 \<le> x" "x + 1 \<le> x1" "y0 \<le> y" "y + 1 \<le> y1"
      by (auto simp: cellsOf_def r)
    have "lngG ! x0 \<le> lngG ! x" "lngG ! (x + 1) \<le> lngG ! x1"
      "latG ! y0 \<le> latG ! y" "latG ! (y + 1) \<le> latG ! y1"
      using i l by (auto intro!: spaced_mono[OF sp(1)] spaced_mono[OF sp(2)])
    then show "p \<in> rectPoints (boundOf latG lngG r)"
      using p
      by (simp add: rectPoints_def boundOf_def cellBound_def r SouthWest_def NorthEast_def
          Lng_def[of "(u, w)" for u w] Lat_def[of "(u, w)" for u w])
  qed
qed

lemma tiledBy_marked_in_grid:
  assumes dims: "length g = length lngG" "\<forall>col \<in> set g. length col = length latG"
    and t: "tiledBy latG lngG rs (markedCells g)"
  shows "markedInGrid latG lngG g = markedCells g"
proof (intro set_eqI iffI)
  fix c assume "c \<in> markedInGrid latG lngG g"
  then show "c \<in> markedCells g"
    using dims by (auto simp: markedInGrid_def markedCells_def)
next
  fix c assume c: "c \<in> markedCells g"
  have "(\<Union>r \<in> set rs. cellsOf r) = markedCells g"
    using t by (simp add: tiledBy_def)
  with c have "c \<in> (\<Union>r \<in> set rs. cellsOf r)"
    by simp
  then obtain r where r: "r \<in> set rs" "c \<in> cellsOf r"
    by blast
  then have "validRect latG lngG r"
    using t by (simp add: tiledBy_def)
  then show "c \<in> markedInGrid latG lngG g"
    using r(2) c by (cases r) (auto simp: markedInGrid_def markedCells_def cellsOf_def validRect_def)
qed

lemma tiledBy_union_points:
  assumes sp: "spaced latG" "spaced lngG"
    and dims: "length g = length lngG" "\<forall>col \<in> set g. length col = length latG"
    and t: "tiledBy latG lngG rs (markedCells g)"
  shows "(\<Union>b \<in> set (map (boundOf latG lngG) rs). rectPoints b)
    = (\<Union>(x, y) \<in> markedInGrid latG lngG g. rectPoints (cellBound latG lngG x y))"
proof -
  have "(\<Union>b \<in> set (map (boundOf latG lngG) rs). rectPoints b)
      = (\<Union>r \<in> set rs. \<Union>(x, y) \<in> cellsOf r. rectPoints (cellBound latG lngG x y))"
    using t by (auto simp: tiledBy_def rectPoints_boundOf[OF sp])
  also have "\<dots> = (\<Union>(x, y) \<in> (\<Union>r \<in> set rs. cellsOf r). rectPoints (cellBound latG lngG x y))"
    by blast
  also have "(\<Union>r \<in> set rs. cellsOf r) = markedInGrid latG lngG g"
    using t tiledBy_marked_in_grid[OF dims t] by (simp add: tiledBy_def)
  finally show ?thesis .
qed

lemma tiledBy_exactTiling:
  assumes sp: "spaced latG" "spaced lngG"
    and dims: "length g = length lngG" "\<forall>col \<in> set g. length col = length latG"
    and t: "tiledBy latG lngG rs (markedCells g)"
  shows "exactTiling latG lngG g (map (boundOf latG lngG) rs)"
  unfolding exactTiling_def
proof (intro conjI allI impI)
  show "(\<Union>b \<in> set (map (boundOf latG lngG) rs). rectPoints b)
      = (\<Union>(x, y) \<in> markedInGrid latG lngG g. rectPoints (cellBound latG lngG x y))"
    by (rule tiledBy_union_points[OF sp dims t])
next
  fix x y
  assume x: "x < length lngG - 1" and y: "y < length latG - 1"
  then have xy: "x + 1 < length lngG" "y + 1 < length latG"
    by auto
  have "filter (\<lambda>r. coversCell latG lngG (boundOf latG lngG r) x y) rs
      = filter (\<lambda>r. (x, y) \<in> cellsOf r) rs"
    using t by (intro filter_cong refl coversCell_boundOf[OF sp _ xy]) (simp add: tiledBy_def)
  then have "length (filter (\<lambda>b. coversCell latG lngG b x y) (map (boundOf latG lngG) rs))
      = length (filter (\<lambda>r. (x, y) \<in> cellsOf r) rs)"
    by (simp add: filter_map comp_def)
  also have "\<dots> = (if (x, y) \<in> markedCells g then 1 else 0)"
  proof -
    have "sorted_wrt (\<lambda>r r'. cellsOf r \<inter> cellsOf r' = {}) rs"
      and u: "(\<Union>r \<in> set rs. cellsOf r) = markedCells g"
      using t by (simp_all add: tiledBy_def)
    from count_disjoint[OF this(1), of "(x, y)"] show ?thesis
      unfolding u .
  qed
  also have "(x, y) \<in> markedCells g \<longleftrightarrow> g ! x ! y = 1"
    using xy dims by (simp add: markedCells_def)
  finally show "length (filter (\<lambda>b. coversCell latG lngG b x y) (map (boundOf latG lngG) rs))
      = (if g ! x ! y = 1 then 1 else 0)" .
next
  fix i j
  assume i: "i < length (map (boundOf latG lngG) rs)" and j: "j < i"
  have "sorted_wrt (\<lambda>r r'. cellsOf r \<inter> cellsOf r' = {}) rs"
    using t by (simp add: tiledBy_def)
  from sorted_wrt_nth_less[OF this j] i have d: "cellsOf (rs ! j) \<inter> cellsOf (rs ! i) = {}"
    by simp
  have v: "validRect latG lngG (rs ! i)" "validRect latG lngG (rs ! j)"
    using t i j by (simp_all add: tiledBy_def)
  show "\<not> overlap (map (boundOf latG lngG) rs ! i) (map (boundOf latG lngG) rs ! j)"
    using overlap_boundOf[OF sp v] d i j by auto
qed

text \<open>
  Claim C1 (for every non-empty route and positive range, the rectangles \<^verbatim>\<open>Boxes\<close> returns
  are pairwise non-overlapping and cover exactly the marked cells) fails when cells are
  narrower than the merge tolerance of \<open>0.001\<close> degrees: for the L-shaped route with
  \<open>a = 1 / 10000\<close> and range \<open>50\<close>, both traversals merge everything into the one
  rectangle of all 4 by 4 cells, which covers the unmarked cell \<open>(3, 0)\<close>.
\<close>

theorem Boxes_covers_unmarked_cell:
  "let dl = rad2deg (50 / 6378137);
       box = \<lparr>sw = (- (2 * dl), - (2 * dl)), ne = (2 * dl, 2 * dl)\<rparr>
   in Boxes 2 6378137 (NewRouteBoxer 50 (routeL (1 / 10000))) =
        Some (Inr ([box], \<lparr>distanceRange = 50, vertices = routeL (1 / 10000),
          latGrid = linesL dl, lngGrid = linesL dl, grid = markedL,
          boxesX = [box], boxesY = [box]\<rparr>)) \<and>
      markedL ! 3 ! 0 = 0 \<and>
      coversCell (linesL dl) (linesL dl) box 3 0 \<and>
      \<not> exactTiling (linesL dl) (linesL dl) markedL [box]"
proof -
  define dl where "dl = rad2deg (50 / 6378137)"
  define box where "box = \<lparr>sw = (- (2 * dl), - (2 * dl)), ne = (2 * dl, 2 * dl)\<rparr>"
  have pos: "0 < dl"
    using range_50(5,6) by (simp add: dl_def)
  have b: "Boxes 2 6378137 (NewRouteBoxer 50 (routeL (1 / 10000))) =
        Some (Inr ([box], \<lparr>distanceRange = 50, vertices = routeL (1 / 10000),
          latGrid = linesL dl, lngGrid = linesL dl, grid = markedL,
          boxesX = [box], boxesY = [box]\<rparr>))"
    unfolding box_def by (rule Boxes_routeL_small[OF range_50(1-7), folded dl_def])
  have m: "markedL ! 3 ! 0 = 0"
    by (simp add: markedL_def)
  have c: "coversCell (linesL dl) (linesL dl) box 3 0"
    using pos
    by (simp add: coversCell_def linesL_def box_def SouthWest_def NorthEast_def Lng_def Lat_def)
  have "\<not> exactTiling (linesL dl) (linesL dl) markedL [box]"
  proof
    assume "exactTiling (linesL dl) (linesL dl) markedL [box]"
    then have "\<forall>x < length (linesL dl) - 1. \<forall>y < length (linesL dl) - 1.
        length (filter (\<lambda>b. coversCell (linesL dl) (linesL dl) b x y) [box])
          = (if markedL ! x ! y = 1 then 1 else 0)"
      by (simp add: exactTiling_def)
    moreover have "(3::nat) < length (linesL dl) - 1" "(0::nat) < length (linesL dl) - 1"
      by (simp_all add: linesL_def)
    ultimately have "length (filter (\<lambda>b. coversCell (linesL dl) (linesL dl) b 3 0) [box])
        = (if markedL ! 3 ! 0 = 1 then 1 else 0)"
      by blast
    then show False
      using c m by simp
  qed
  with b m c show ?thesis
    by (simp add: Let_def dl_def[symmetric] box_def[symmetric])
qed

text \<open>
  Claim C1 as amended: whenever \<^verbatim>\<open>Boxes\<close>, called on a fresh receiver, returns and the grid
  lines it built increase by at least \<open>0.001\<close> degrees from each line to the next on both
  axes, the rectangles it returns are pairwise non-overlapping and their union is exactly
  the union of the marked cells: every marked cell is covered by exactly one of them and
  no unmarked cell by any. Each returned rectangle has its edges on grid lines, and the
  sets of cells the rectangles enclose are pairwise disjoint and make up the set of marked
  cells.
\<close>

theorem Boxes_exact_tiling_when_spaced:
  assumes "Boxes fuel er (NewRouteBoxer dr vs) = Some (Inr (res, r'))"
    and sp: "spaced (latGrid r')" "spaced (lngGrid r')"
  shows "exactTiling (latGrid r') (lngGrid r') (grid r') res \<and>
     (\<exists>rs. res = map (boundOf (latGrid r') (lngGrid r')) rs \<and>
        tiledBy (latGrid r') (lngGrid r') rs (markedCells (grid r')) \<and>
        markedCells (grid r') = markedInGrid (latGrid r') (lngGrid r') (grid r'))"
proof -
  from assms(1) obtain r1 r2 where
    b: "buildGrid fuel er (NewRouteBoxer dr vs) = Some (Inr r1)"
    and f: "FindIntersectingCells er r1 = Inr r2"
    and m: "mergeIntersectingCells r2 = Inr r'"
    and res: "res = (if length (boxesX r') \<le> length (boxesY r') then boxesX r' else boxesY r')"
    by (rule Boxes_Inr)
  from FindIntersectingCells_frame[OF f] obtain g' where
    r2: "r2 = r1\<lparr>grid := g'\<rparr>" and g': "map length g' = map length (grid r1)"
    by blast
  from mergeIntersectingCells_frame[OF m] obtain bsX bsY where
    r': "r' = r2\<lparr>boxesX := bsX, boxesY := bsY\<rparr>"
    and y: "rowScan (latGrid r2) (lngGrid r2) (grid r2) 0 (boxesY r2) = Inr bsY"
    and x: "colScan (latGrid r2) (lngGrid r2) (grid r2) 0 (boxesX r2) = Inr bsX"
    by blast
  note fr = buildGrid_frame[OF b]
  let ?latG = "latGrid r'" and ?lngG = "lngGrid r'"
  let ?good = "\<lambda>bs. exactTiling ?latG ?lngG (grid r') bs \<and>
     (\<exists>rs. bs = map (boundOf ?latG ?lngG) rs \<and> tiledBy ?latG ?lngG rs (markedCells (grid r')) \<and>
        markedCells (grid r') = markedInGrid ?latG ?lngG (grid r'))"
  have eq: "latGrid r2 = ?latG" "lngGrid r2 = ?lngG" "grid r2 = g'" "grid r' = g'"
    "boxesX r2 = []" "boxesY r2 = []" "boxesX r' = bsX" "boxesY r' = bsY"
    using fr(3,4) by (simp_all add: r' r2 NewRouteBoxer_def)
  have "map length g' = replicate (length ?lngG) (length ?latG)"
    using g' fr(7) by (simp add: r' r2)
  then have dims: "length g' = length ?lngG" "\<forall>col \<in> set g'. length col = length ?latG"
    by (metis length_map length_replicate, metis (no_types) in_set_replicate image_eqI list.set_map)
  have "g' \<noteq> []"
    using fr(6) dims(1) by (auto simp: r' r2)
  then have dims0: "\<forall>col \<in> set g'. length col = length (g' ! 0)"
    using dims(2) by (cases g') auto
  have "rowDone g' 0 0 = {}" "colDone g' 0 0 = {}"
    by (simp_all add: rowDone_def colDone_def)
  then have start: "\<exists>rs. [] = map (boundOf ?latG ?lngG) rs \<and> tiledBy ?latG ?lngG rs (rowDone g' 0 0)"
    "\<exists>rs. [] = map (boundOf ?latG ?lngG) rs \<and> tiledBy ?latG ?lngG rs (colDone g' 0 0)"
    using tiledBy_Nil by fastforce+
  from rowScan_tiled[OF sp dims(2) y[unfolded eq] start(1)] obtain rsY where
    rsY: "bsY = map (boundOf ?latG ?lngG) rsY" "tiledBy ?latG ?lngG rsY (markedCells g')"
    by blast
  have tY: "?good bsY"
    using tiledBy_exactTiling[OF sp dims rsY(2)] tiledBy_marked_in_grid[OF dims rsY(2)] rsY
    unfolding eq by auto
  from colScan_tiled[OF sp dims0 x[unfolded eq] start(2)] obtain rsX where
    rsX: "bsX = map (boundOf ?latG ?lngG) rsX" "tiledBy ?latG ?lngG rsX (markedCells g')"
    by blast
  have tX: "?good bsX"
    using tiledBy_exactTiling[OF sp dims rsX(2)] tiledBy_marked_in_grid[OF dims rsX(2)] rsX
    unfolding eq by auto
  show ?thesis
  proof (cases "length (boxesX r') \<le> length (boxesY r')")
    case True
    then have "res = bsX"
      by (simp add: res eq)
    then show ?thesis
      using tX by simp
  next
    case False
    then have "res = bsY"
      by (simp add: res eq)
    then show ?thesis
      using tY by simp
  qed
qed

theorem Boxes_exact_tiling_when_spaced_witness:
  "let dl = rad2deg (200000 / 6378137)
   in Boxes 2 6378137 (NewRouteBoxer 200000 (routeL 1)) =
        Some (Inr (colFirstL dl, \<lparr>distanceRange = 200000, vertices = routeL 1,
          latGrid = linesL dl, lngGrid = linesL dl, grid = markedL,
          boxesX = colFirstL dl, boxesY = rowFirstL dl\<rparr>)) \<and>
      spaced (linesL dl) \<and>
      exactTiling (linesL dl) (linesL dl) markedL (colFirstL dl) \<and>
      (\<exists>rs. colFirstL dl = map (boundOf (linesL dl) (linesL dl)) rs \<and>
         tiledBy (linesL dl) (linesL dl) rs (markedCells markedL) \<and>
         markedCells markedL = markedInGrid (linesL dl) (linesL dl) markedL)"
proof -
  define dl where "dl = rad2deg (200000 / 6378137)"
  have s: "spaced (linesL dl)"
    using range_200km(7) by (simp add: spaced_def linesL_def dl_def)
  note b = Boxes_routeL_large[OF range_200km(1-7), folded dl_def]
  have "exactTiling (linesL dl) (linesL dl) markedL (colFirstL dl) \<and>
      (\<exists>rs. colFirstL dl = map (boundOf (linesL dl) (linesL dl)) rs \<and>
         tiledBy (linesL dl) (linesL dl) rs (markedCells markedL) \<and>
         markedCells markedL = markedInGrid (linesL dl) (linesL dl) markedL)"
    using Boxes_exact_tiling_when_spaced[OF b] s by simp
  with b s show ?thesis
    by (simp add: Let_def dl_def[symmetric])
qed

end
